theory Spec2Isabelle
  imports Complex_Main
begin

section \<open>JavaScript numbers\<close>

text \<open>
  The numbers this program computes with are IEEE-754 doubles that are not negative: a
  draw of \<^verbatim>\<open>Math.random\<close>, the literal \<^verbatim>\<open>100\<close> and their product. \<open>Finite m e\<close> is
  the number \<open>m * 2 ^ e\<close>; a double has \<open>m < 2 ^ 53\<close> and \<open>- 1074 \<le> e\<close>.
\<close>

datatype js_number = Finite nat int | Infinity | NaN

fun number_value :: "js_number \<Rightarrow> real option" where
  "number_value (Finite m e) = Some (real m * 2 powi e)"
| "number_value Infinity = None"
| "number_value NaN = None"

text \<open>
  Rounding an exact product \<open>M * 2 ^ E\<close> to a double. \<open>excess M\<close> is the number of
  bits \<open>M\<close> has beyond the 53 of a significand; \<open>round_shift M s\<close> drops the lowest \<open>s\<close>
  bits, rounding to nearest and a tie to the even neighbour. Below the smallest normal
  number the grid has step \<open>2 ^ - 1074\<close>; from \<open>2 ^ 1024\<close> on the result is infinite.
\<close>

function excess :: "nat \<Rightarrow> nat" where
  "excess M = (if M < 2 ^ 53 then 0 else Suc (excess (M div 2)))"
  by pat_completeness auto
termination
  by (relation "measure (\<lambda>M. M)") auto

declare excess.simps [simp del]

definition round_shift :: "nat \<Rightarrow> nat \<Rightarrow> nat" where
  "round_shift M s =
     (let q = M div 2 ^ s; r = M mod 2 ^ s
      in if 2 ^ s < 2 * r \<or> (2 * r = 2 ^ s \<and> odd q) then Suc q else q)"

definition overflow_threshold :: nat where
  "overflow_threshold = 2 ^ 1024"

definition round_product :: "nat \<Rightarrow> int \<Rightarrow> js_number" where
  "round_product M E =
     (let s = max (excess M) (nat (- 1074 - E));
          q = round_shift M s;
          E' = E + int s
      in if 0 \<le> E' \<and> overflow_threshold \<le> q * 2 ^ nat E' then Infinity else Finite q E')"

text \<open>The operator \<^verbatim>\<open>*\<close> on such numbers.\<close>

fun js_times :: "js_number \<Rightarrow> js_number \<Rightarrow> js_number" where
  "js_times (Finite m1 e1) (Finite m2 e2) = round_product (m1 * m2) (e1 + e2)"
| "js_times NaN y = NaN"
| "js_times x NaN = NaN"
| "js_times Infinity (Finite m e) = (if m = 0 then NaN else Infinity)"
| "js_times (Finite m e) Infinity = (if m = 0 then NaN else Infinity)"
| "js_times Infinity Infinity = Infinity"

definition hundred :: js_number where
  "hundred = Finite 100 0"

text \<open>
  The contract of \<^verbatim>\<open>Math.random\<close>: a double that is at least 0 and less than 1.
\<close>

fun unit_draw :: "js_number \<Rightarrow> bool" where
  "unit_draw (Finite m e) \<longleftrightarrow>
     m < 2 ^ 53 \<and> - 1074 \<le> e \<and> (m = 0 \<or> (e < 0 \<and> m < 2 ^ nat (- e)))"
| "unit_draw Infinity \<longleftrightarrow> False"
| "unit_draw NaN \<longleftrightarrow> False"

section \<open>Values of the telemetry demo (src/index.js)\<close>

text \<open>
  The object literal \<^verbatim>\<open>{ vehicleId, speed: randomSpeed }\<close> that a retrieval resolves
  with. Identifiers are any JavaScript value (the script passes small integers), so the
  identifier type is a parameter.
\<close>

record 'id telemetry =
  vehicleId :: 'id
  speed :: js_number

text \<open>
  Values a promise can be rejected with. The source constructs no error of its own:
  \<open>TypeError\<close> is what the engine throws for \<^verbatim>\<open>vehicleIds.map\<close> when the argument
  is not an array, \<open>Reason\<close> stands for the rejection reason of a retrieval that fails.
\<close>

datatype js_error = TypeError | Reason string

datatype ('a, 'e) promise = Pending | Fulfilled 'a | Rejected 'e

text \<open>
  What the promise of the async function can be fulfilled with. The function has no
  \<^verbatim>\<open>return\<close> statement, so only \<open>Undefined\<close> is ever used; \<open>Report\<close> is the
  value a function returning its aggregated array would produce.
\<close>

datatype 'id js_value = Undefined | Report "'id telemetry list"

text \<open>
  Lines of the diagnostic channel: \<^verbatim>\<open>console.log(text)\<close>, the template line
  \<^verbatim>\<open>console.log(`Vehicle ID: ${data.vehicleId}, Speed: ${data.speed} km/h`)\<close> kept as
  its two interpolated values, and \<^verbatim>\<open>console.error(text, error)\<close>.
\<close>

datatype 'id log_line =
    Log string
  | Log_vehicle 'id js_number
  | Log_error string js_error

section \<open>The runtime: timers, promises, Math.random\<close>

text \<open>
  The closure passed to \<^verbatim>\<open>setTimeout\<close>, with the variables it captures: the promise
  whose \<^verbatim>\<open>resolve\<close> it calls and the \<^verbatim>\<open>vehicleId\<close>. \<open>Reject_reason\<close> is the
  callback of a retrieval that fails; the source has none, it serves the statements
  about what the aggregator does if a child is rejected.
\<close>

datatype 'id callback =
    Resolve_telemetry nat 'id
  | Reject_reason nat js_error

type_synonym 'id timer = "nat \<times> 'id callback"

text \<open>
  The state of \<^verbatim>\<open>Promise.all\<close>: the child promises in input order, the \<open>values\<close>
  list with one slot per child, \<open>remainingElementsCount\<close>, and the promise it returned.
\<close>

record 'id all_state =
  children :: "nat list"
  slots :: "'id telemetry option list"
  remaining :: nat
  all_promise :: "('id telemetry list, js_error) promise"

text \<open>
  The world the script runs in: a virtual clock in milliseconds, the pending timers in
  registration order with their due times, the table of retrieval promises, the number
  of \<^verbatim>\<open>Math.random\<close> calls made so far, the diagnostic channel, the arrays of the
  caller by reference, the \<^verbatim>\<open>Promise.all\<close> the async function awaits, and the promise
  the async function returned (\<open>None\<close> before the call).
\<close>

record 'id world =
  clock :: nat
  timers :: "'id timer list"
  promises :: "('id telemetry, js_error) promise list"
  draws :: nat
  console :: "'id log_line list"
  heap :: "nat \<Rightarrow> 'id list option"
  aggregate :: "'id all_state option"
  returned :: "('id js_value, js_error) promise option"

definition setTimeout :: "'id callback \<Rightarrow> nat \<Rightarrow> 'id world \<Rightarrow> 'id world" where
  "setTimeout cb ms w = w\<lparr>timers := timers w @ [(clock w + ms, cb)]\<rparr>"

text \<open>\<^verbatim>\<open>new Promise(executor)\<close>: a fresh pending promise, the executor run at once.\<close>

definition new_Promise ::
  "(nat \<Rightarrow> 'id world \<Rightarrow> 'id world) \<Rightarrow> 'id world \<Rightarrow> nat \<times> 'id world" where
  "new_Promise executor w =
     (let p = length (promises w)
      in (p, executor p (w\<lparr>promises := promises w @ [Pending]\<rparr>)))"

text \<open>
  \<^verbatim>\<open>Math.random()\<close>: the next value of the engine's random sequence \<open>rnd\<close>, which is
  a parameter of the model; its contract is \<open>unit_draw (rnd k)\<close>.
\<close>

definition Math_random ::
  "(nat \<Rightarrow> js_number) \<Rightarrow> 'id world \<Rightarrow> js_number \<times> 'id world" where
  "Math_random rnd w = (rnd (draws w), w\<lparr>draws := Suc (draws w)\<rparr>)"

section \<open>fetchTelemetryData\<close>

text \<open>
  \<^verbatim>\<open>
  function fetchTelemetryData(vehicleId) {
    return new Promise((resolve, reject) => {
      setTimeout(() => {
        const randomSpeed = Math.random() * 100;
        resolve({ vehicleId, speed: randomSpeed });
      }, 1000);
    });
  }
  \<close>
\<close>

definition fetchTelemetryData :: "'id \<Rightarrow> 'id world \<Rightarrow> nat \<times> 'id world" where
  "fetchTelemetryData vid =
     new_Promise (\<lambda>p. setTimeout (Resolve_telemetry p vid) 1000)"

text \<open>
  A simulated retrieval in general: it succeeds for an identifier, or fails with a
  reason, after its own delay. \<open>fetchTelemetryData v\<close> is \<open>simulated (Succeed 1000 v)\<close>.
\<close>

datatype 'id retrieval = Succeed nat 'id | Fail nat js_error

fun simulated :: "'id retrieval \<Rightarrow> 'id world \<Rightarrow> nat \<times> 'id world" where
  "simulated (Succeed ms v) = new_Promise (\<lambda>p. setTimeout (Resolve_telemetry p v) ms)"
| "simulated (Fail ms e) = new_Promise (\<lambda>p. setTimeout (Reject_reason p e) ms)"

section \<open>Promise.all and the async function\<close>

fun index_of :: "'a \<Rightarrow> 'a list \<Rightarrow> nat option" where
  "index_of x [] = None"
| "index_of x (y # ys) = (if x = y then Some 0 else map_option Suc (index_of x ys))"

text \<open>
  \<^verbatim>\<open>Promise.all(ps)\<close>: one empty slot per child and the count of children still to
  resolve; for an empty list the promise is fulfilled with the empty array at once.
  The children are the promises \<^verbatim>\<open>map\<close> has just created: each is pending and is
  settled only by its timer, so every reaction registered here runs after a timer.
\<close>

definition Promise_all :: "nat list \<Rightarrow> 'id all_state" where
  "Promise_all ps =
     \<lparr>children = ps, slots = replicate (length ps) None, remaining = length ps,
      all_promise = (if ps = [] then Fulfilled [] else Pending)\<rparr>"

text \<open>Settling the promise of \<^verbatim>\<open>Promise.all\<close>: only the first settlement counts.\<close>

definition settle_all ::
  "('id telemetry list, js_error) promise \<Rightarrow> 'id all_state \<Rightarrow> 'id all_state" where
  "settle_all s a = (if all_promise a = Pending then a\<lparr>all_promise := s\<rparr> else a)"

text \<open>
  The resolve element function of child \<open>i\<close>: store the value in slot \<open>i\<close>, count one
  child less, and when none remains fulfil with the slots in index order.
\<close>

definition resolve_element :: "nat \<Rightarrow> 'id telemetry \<Rightarrow> 'id all_state \<Rightarrow> 'id all_state" where
  "resolve_element i v a =
     (let a1 = a\<lparr>slots := (slots a)[i := Some v], remaining := remaining a - 1\<rparr>
      in if remaining a1 = 0
         then (case those (slots a1) of
                 Some data \<Rightarrow> settle_all (Fulfilled data) a1
               | None \<Rightarrow> a1)
         else a1)"

text \<open>
  \<^verbatim>\<open>
  async function fetchTelemetryForMultipleVehicles(vehicleIds) {
    try {
      const telemetryData = await Promise.all(
        vehicleIds.map((vehicleId) => fetchTelemetryData(vehicleId))
      );
      console.log('Telemetry Data:');
      telemetryData.forEach((data) => {
        console.log(`Vehicle ID: ${data.vehicleId}, Speed: ${data.speed} km/h`);
      });
    } catch (error) {
      console.error('Error fetching telemetry data:', error);
    }
  }
  \<close>
  The rest of the \<^verbatim>\<open>try\<close> block after the \<^verbatim>\<open>await\<close>, and the \<^verbatim>\<open>catch\<close> block.
  Both fall off the end of the function, which fulfils its promise with \<open>undefined\<close>.
\<close>

definition try_rest :: "'id telemetry list \<Rightarrow> 'id world \<Rightarrow> 'id world" where
  "try_rest telemetryData w =
     w\<lparr>console := console w @ Log ''Telemetry Data:'' #
          map (\<lambda>data. Log_vehicle (vehicleId data) (speed data)) telemetryData,
       returned := Some (Fulfilled Undefined)\<rparr>"

definition catch_block :: "js_error \<Rightarrow> 'id world \<Rightarrow> 'id world" where
  "catch_block error w =
     w\<lparr>console := console w @ [Log_error ''Error fetching telemetry data:'' error],
       returned := Some (Fulfilled Undefined)\<rparr>"

text \<open>
  The \<^verbatim>\<open>await\<close>: the function stays suspended while the awaited promise is pending,
  and continues once, in the \<^verbatim>\<open>try\<close> block or in the \<^verbatim>\<open>catch\<close> block.
\<close>

definition resume :: "'id world \<Rightarrow> 'id world" where
  "resume w =
     (case (aggregate w, returned w) of
        (Some a, Some Pending) \<Rightarrow>
          (case all_promise a of
             Pending \<Rightarrow> w
           | Fulfilled telemetryData \<Rightarrow> try_rest telemetryData w
           | Rejected error \<Rightarrow> catch_block error w)
      | _ \<Rightarrow> w)"

text \<open>
  The reactions \<^verbatim>\<open>Promise.all\<close> registered on child \<open>p\<close>, run as microtasks when
  \<open>p\<close> settles, followed by the continuation of the async function.
\<close>

definition react :: "nat \<Rightarrow> 'id world \<Rightarrow> 'id world" where
  "react p w =
     (case aggregate w of
        None \<Rightarrow> w
      | Some a \<Rightarrow>
          (case index_of p (children a) of
             None \<Rightarrow> w
           | Some i \<Rightarrow>
               (case promises w ! p of
                  Pending \<Rightarrow> w
                | Fulfilled v \<Rightarrow> resume (w\<lparr>aggregate := Some (resolve_element i v a)\<rparr>)
                | Rejected e \<Rightarrow> resume (w\<lparr>aggregate := Some (settle_all (Rejected e) a)\<rparr>))))"

text \<open>\<^verbatim>\<open>resolve(v)\<close> and \<^verbatim>\<open>reject(e)\<close> of a promise: no effect once it is settled.\<close>

definition settle ::
  "nat \<Rightarrow> ('id telemetry, js_error) promise \<Rightarrow> 'id world \<Rightarrow> 'id world" where
  "settle p s w =
     (if p < length (promises w) \<and> promises w ! p = Pending
      then react p (w\<lparr>promises := (promises w)[p := s]\<rparr>)
      else w)"

fun run_callback :: "(nat \<Rightarrow> js_number) \<Rightarrow> 'id callback \<Rightarrow> 'id world \<Rightarrow> 'id world" where
  "run_callback rnd (Resolve_telemetry p vid) w =
     (let (r, w1) = Math_random rnd w;
          randomSpeed = js_times r hundred
      in settle p (Fulfilled \<lparr>vehicleId = vid, speed = randomSpeed\<rparr>) w1)"
| "run_callback rnd (Reject_reason p e) w = settle p (Rejected e) w"

text \<open>\<^verbatim>\<open>vehicleIds.map(child)\<close>: the calls are made left to right, at once.\<close>

fun map_fetch ::
  "('a \<Rightarrow> 'id world \<Rightarrow> nat \<times> 'id world) \<Rightarrow> 'a list \<Rightarrow> 'id world \<Rightarrow> nat list \<times> 'id world" where
  "map_fetch child [] w = ([], w)"
| "map_fetch child (v # vs) w =
     (let (p, w1) = child v w;
          (ps, w2) = map_fetch child vs w1
      in (p # ps, w2))"

text \<open>
  The body of the async function up to its first suspension, with the retrieval it
  calls as a parameter.
\<close>

definition fetchAll_with ::
  "('a \<Rightarrow> 'id world \<Rightarrow> nat \<times> 'id world) \<Rightarrow> 'a list \<Rightarrow> 'id world \<Rightarrow> 'id world" where
  "fetchAll_with child vehicleIds w =
     (let (ps, w1) = map_fetch child vehicleIds w
      in resume (w1\<lparr>aggregate := Some (Promise_all ps), returned := Some Pending\<rparr>))"

text \<open>
  The call \<^verbatim>\<open>fetchTelemetryForMultipleVehicles(vehicleIds)\<close> with the argument a
  reference into the heap. Where the reference is not an array, \<^verbatim>\<open>vehicleIds.map\<close>
  throws inside the \<^verbatim>\<open>try\<close> block.
\<close>

definition fetchTelemetryForMultipleVehicles :: "nat \<Rightarrow> 'id world \<Rightarrow> 'id world" where
  "fetchTelemetryForMultipleVehicles ref w =
     (case heap w ref of
        None \<Rightarrow> catch_block TypeError (w\<lparr>returned := Some Pending\<rparr>)
      | Some vehicleIds \<Rightarrow> fetchAll_with fetchTelemetryData vehicleIds w)"

section \<open>The event loop\<close>

text \<open>
  The next timer to fire: the one with the earliest due time, and among timers due at
  the same time the one registered first.
\<close>

fun take_next :: "'id timer list \<Rightarrow> ('id timer \<times> 'id timer list) option" where
  "take_next [] = None"
| "take_next (t # ts) =
     (case take_next ts of
        None \<Rightarrow> Some (t, [])
      | Some (u, rest) \<Rightarrow> if fst t \<le> fst u then Some (t, ts) else Some (u, t # rest))"

text \<open>Firing a timer: the clock has reached its due time, and its callback runs.\<close>

definition fire :: "(nat \<Rightarrow> js_number) \<Rightarrow> 'id timer \<Rightarrow> 'id world \<Rightarrow> 'id world" where
  "fire rnd t w = run_callback rnd (snd t) (w\<lparr>clock := max (clock w) (fst t)\<rparr>)"

text \<open>
  No callback of this program schedules a timer, and taking the next timer leaves
  fewer of them: the event loop comes to an end.
\<close>

lemma timers_resume [simp]: "timers (resume w) = timers w"
  by (simp add: resume_def try_rest_def catch_block_def split: option.splits promise.splits)

lemma timers_react [simp]: "timers (react p w) = timers w"
  by (simp add: react_def split: option.splits promise.splits)

lemma timers_settle [simp]: "timers (settle p s w) = timers w"
  by (simp add: settle_def)

lemma timers_fire [simp]: "timers (fire rnd t w) = timers w"
  by (cases "snd t") (simp_all add: fire_def Math_random_def)

lemma take_next_length: "take_next ts = Some (u, rest) \<Longrightarrow> length rest < length ts"
  by (induction ts arbitrary: u rest) (auto split: option.splits if_splits)

text \<open>Run every pending timer, in firing order.\<close>

function event_loop :: "(nat \<Rightarrow> js_number) \<Rightarrow> 'id world \<Rightarrow> 'id world" where
  "event_loop rnd w =
     (case take_next (timers w) of
        None \<Rightarrow> w
      | Some (t, rest) \<Rightarrow> event_loop rnd (fire rnd t (w\<lparr>timers := rest\<rparr>)))"
  by pat_completeness auto
termination
  by (relation "measure (\<lambda>(rnd, w). length (timers w))") (auto dest: take_next_length)

text \<open>Run the timers due up to virtual time \<open>t\<close>, and let the clock reach \<open>t\<close>.\<close>

function run_until :: "(nat \<Rightarrow> js_number) \<Rightarrow> nat \<Rightarrow> 'id world \<Rightarrow> 'id world" where
  "run_until rnd t w =
     (case take_next (timers w) of
        None \<Rightarrow> w\<lparr>clock := max (clock w) t\<rparr>
      | Some (u, rest) \<Rightarrow>
          if fst u \<le> t then run_until rnd t (fire rnd u (w\<lparr>timers := rest\<rparr>))
          else w\<lparr>clock := max (clock w) t\<rparr>)"
  by pat_completeness auto
termination
  by (relation "measure (\<lambda>(rnd, t, w). length (timers w))") (auto dest: take_next_length)

declare event_loop.simps [simp del] run_until.simps [simp del]

text \<open>What the function awaited, and the report it printed from.\<close>

definition telemetryData :: "'id world \<Rightarrow> 'id telemetry list option" where
  "telemetryData w =
     (case aggregate w of
        None \<Rightarrow> None
      | Some a \<Rightarrow> (case all_promise a of Fulfilled data \<Rightarrow> Some data | _ \<Rightarrow> None))"

section \<open>Vocabulary of the proofs\<close>

text \<open>The delay of a simulated retrieval and the callback its timer runs for promise \<open>p\<close>.\<close>

fun delay_of :: "'id retrieval \<Rightarrow> nat" where
  "delay_of (Succeed ms v) = ms"
| "delay_of (Fail ms e) = ms"

fun callback_of :: "nat \<Rightarrow> 'id retrieval \<Rightarrow> 'id callback" where
  "callback_of p (Succeed ms v) = Resolve_telemetry p v"
| "callback_of p (Fail ms e) = Reject_reason p e"

text \<open>
  The timer that \<open>simulated (rs ! i)\<close> registers when it is called at time \<open>now\<close> as the
  \<open>i\<close>-th retrieval of a call that finds \<open>k\<close> promises in the table.
\<close>

definition timer_of :: "nat \<Rightarrow> nat \<Rightarrow> 'id retrieval list \<Rightarrow> nat \<Rightarrow> 'id timer" where
  "timer_of now k rs i = (now + delay_of (rs ! i), callback_of (k + i) (rs ! i))"

text \<open>The promise a callback settles.\<close>

fun target :: "'id callback \<Rightarrow> nat" where
  "target (Resolve_telemetry p v) = p"
| "target (Reject_reason p e) = p"

text \<open>
  The invariant of the event loop while no child has been rejected: \<open>js\<close> are the
  indices of the retrievals whose timers are still pending, in registration order; the
  children outside \<open>js\<close> have succeeded and fill their own slots; the function is
  suspended and has printed nothing. \<open>w0\<close> is the world the call was made in.
\<close>

definition pending_inv ::
  "(nat \<Rightarrow> js_number) \<Rightarrow> 'id retrieval list \<Rightarrow> 'id world \<Rightarrow> nat list \<Rightarrow> 'id world \<Rightarrow> bool" where
  "pending_inv rnd rs w0 js w \<longleftrightarrow>
     timers w = map (timer_of (clock w0) (length (promises w0)) rs) js \<and>
     sorted_wrt (<) js \<and> set js \<subseteq> {..<length rs} \<and>
     length (promises w) = length (promises w0) + length rs \<and>
     take (length (promises w0)) (promises w) = promises w0 \<and>
     (\<forall>j\<in>set js. promises w ! (length (promises w0) + j) = Pending) \<and>
     heap w = heap w0 \<and> console w = console w0 \<and> returned w = Some Pending \<and>
     (\<exists>a. aggregate w = Some a \<and>
        children a = [length (promises w0) ..< length (promises w0) + length rs] \<and>
        length (slots a) = length rs \<and> remaining a = length js \<and> all_promise a = Pending \<and>
        (\<forall>i<length rs.
           if i \<in> set js then slots a ! i = None
           else (\<exists>ms v s. rs ! i = Succeed ms v \<and>
                  slots a ! i = Some \<lparr>vehicleId = v, speed = js_times (rnd s) hundred\<rparr>)))"

text \<open>The world after the \<^verbatim>\<open>try\<close> block has run to its end.\<close>

definition fulfilled_post ::
  "(nat \<Rightarrow> js_number) \<Rightarrow> 'id retrieval list \<Rightarrow> 'id world \<Rightarrow> 'id world \<Rightarrow> bool" where
  "fulfilled_post rnd rs w0 w \<longleftrightarrow>
     heap w = heap w0 \<and> take (length (promises w0)) (promises w) = promises w0 \<and>
     returned w = Some (Fulfilled Undefined) \<and>
     (\<exists>data. telemetryData w = Some data \<and> length data = length rs \<and>
        (\<forall>i<length rs. \<exists>ms v s. rs ! i = Succeed ms v \<and>
           data ! i = \<lparr>vehicleId = v, speed = js_times (rnd s) hundred\<rparr>) \<and>
        console w = console w0 @ Log ''Telemetry Data:'' #
          map (\<lambda>data. Log_vehicle (vehicleId data) (speed data)) data)"

text \<open>
  Retrieval \<open>j\<close> fails with \<open>e\<close> after \<open>d\<close>, and no failing retrieval is rejected
  before it: none has a shorter delay, and none with the same delay was started earlier.
\<close>

definition first_failure :: "'id retrieval list \<Rightarrow> nat \<Rightarrow> nat \<Rightarrow> js_error \<Rightarrow> bool" where
  "first_failure rs j d e \<longleftrightarrow>
     j < length rs \<and> rs ! j = Fail d e \<and>
     (\<forall>i<length rs. \<forall>d' e'. rs ! i = Fail d' e' \<longrightarrow> d < d' \<or> (d = d' \<and> j \<le> i))"

text \<open>The world after the \<^verbatim>\<open>catch\<close> block has run for error \<open>e\<close>.\<close>

definition rejected_inv :: "'id retrieval list \<Rightarrow> 'id world \<Rightarrow> js_error \<Rightarrow> 'id world \<Rightarrow> bool" where
  "rejected_inv rs w0 e w \<longleftrightarrow>
     (\<exists>js. timers w = map (timer_of (clock w0) (length (promises w0)) rs) js) \<and>
     heap w = heap w0 \<and> take (length (promises w0)) (promises w) = promises w0 \<and>
     returned w = Some (Fulfilled Undefined) \<and>
     console w = console w0 @ [Log_error ''Error fetching telemetry data:'' e] \<and>
     (\<exists>a. aggregate w = Some a \<and> all_promise a = Rejected e)"

text \<open>
  The world of the script at its call: \<^verbatim>\<open>console.log("working")\<close> has run,
  \<^verbatim>\<open>const vehicleIds = [1, 2, 3, 4, 5]\<close> is the array at reference 0 and nothing is
  scheduled. \<open>steady\<close> is a random sequence to run the examples with: every draw is
  one half.
\<close>

definition script_world :: "int world" where
  "script_world =
     \<lparr>clock = 0, timers = [], promises = [], draws = 0, console = [Log ''working''],
      heap = Map.empty(0 \<mapsto> [1, 2, 3, 4, 5]), aggregate = None, returned = None\<rparr>"

definition steady :: "nat \<Rightarrow> js_number" where
  "steady k = Finite 1 (- 1)"

text \<open>
  A batch in which the second retrieval fails before the others finish; the source
  has no failing retrieval, this one serves the examples of the failure path.
\<close>

definition flaky_batch :: "int retrieval list" where
  "flaky_batch = [Succeed 1000 1, Fail 500 (Reason ''timeout''), Succeed 1000 3]"

section \<open>Facts about the numbers\<close>

lemma hundred_below_threshold: "100 < overflow_threshold"
proof -
  have "(2::nat) ^ 7 \<le> 2 ^ 1024" by (rule power_increasing) simp_all
  moreover have "(100::nat) < 2 ^ 7" by simp
  ultimately show ?thesis unfolding overflow_threshold_def by (rule less_le_trans [rotated])
qed

lemma excess_le: "M < 2 ^ (53 + j) \<Longrightarrow> excess M \<le> j"
proof (induction j arbitrary: M)
  case 0
  then show ?case by (simp add: excess.simps [of M])
next
  case (Suc j)
  show ?case
  proof (cases "M < 2 ^ 53")
    case True
    then show ?thesis by (simp add: excess.simps [of M])
  next
    case False
    have "(2::nat) ^ (53 + Suc j) = 2 ^ (53 + j) * 2" by (simp add: power_add)
    with Suc.prems have "M < 2 ^ (53 + j) * 2" by metis
    then have "M div 2 < 2 ^ (53 + j)" by (rule less_mult_imp_div_less)
    then have "excess (M div 2) \<le> j" by (rule Suc.IH)
    with False show ?thesis by (simp add: excess.simps [of M])
  qed
qed

lemma round_shift_le: "2 * (round_shift M s * 2 ^ s) \<le> 2 * M + 2 ^ s"
proof -
  let ?q = "M div 2 ^ s" and ?r = "M mod 2 ^ s"
  have M: "M = ?q * 2 ^ s + ?r" using div_mult_mod_eq [of M "2 ^ s"] by simp
  show ?thesis
  proof (cases "2 ^ s < 2 * ?r \<or> (2 * ?r = 2 ^ s \<and> odd ?q)")
    case True
    then have up: "round_shift M s = Suc ?q" by (simp add: round_shift_def Let_def)
    from True have "(2::nat) ^ s \<le> 2 * ?r" by auto
    then have "2 * (Suc ?q * 2 ^ s) \<le> 2 * (?q * 2 ^ s + ?r) + 2 ^ s" by simp
    with up show ?thesis using M by simp
  next
    case False
    then have down: "round_shift M s = ?q" by (simp add: round_shift_def Let_def)
    have "?q * 2 ^ s \<le> M" by simp
    then have "2 * (?q * 2 ^ s) \<le> 2 * M + 2 ^ s" by linarith
    then show ?thesis unfolding down .
  qed
qed

lemma powi_split:
  assumes "e < 0"
  shows "(2::real) powi (e + int s) = 2 ^ s / 2 ^ nat (- e)"
proof -
  have "(2::real) powi (e + int s) = 2 powi e * 2 powi int s"
    by (rule power_int_add) simp
  moreover have "(2::real) powi int s = 2 ^ s" by (rule power_int_of_nat)
  moreover have "(2::real) powi e = inverse (2 ^ nat (- e))"
    using assms by (simp add: power_int_def power_one_over inverse_eq_divide)
  ultimately show ?thesis by (simp only: divide_inverse mult.commute)
qed

lemma js_times_hundred_unit:
  assumes "unit_draw r"
  shows "\<exists>q E. js_times r hundred = Finite q E \<and> real q * 2 powi E < 100"
proof (cases r)
  case (Finite m e)
  with assms have m53: "m < 2 ^ 53" and e: "- 1074 \<le> e"
    and unit: "m = 0 \<or> (e < 0 \<and> m < 2 ^ nat (- e))" by simp_all
  let ?M = "m * 100"
  let ?s = "excess ?M"
  let ?q = "round_shift ?M ?s"
  let ?E = "e + int ?s"
  have "?M < 2 ^ 53 * 2 ^ 7" using m53 by (simp add: mult_strict_mono)
  then have "?M < 2 ^ (53 + 7)" by (simp add: power_add)
  then have s7: "?s \<le> 7" by (rule excess_le)
  then have "(2::nat) ^ ?s \<le> 2 ^ 7" by (rule power_increasing) simp
  then have p128: "(2::nat) ^ ?s \<le> 128" by simp
  have shift: "max ?s (nat (- 1074 - e)) = ?s" using e by simp
  have small: "real ?q * 2 powi ?E < 100"
  proof (cases "m = 0")
    case True
    then have "?q = 0" by (simp add: round_shift_def Let_def)
    then show ?thesis by simp
  next
    case False
    with unit have neg: "e < 0" and mk: "m < 2 ^ nat (- e)" by auto
    let ?k = "nat (- e)"
    have "2 * (?q * 2 ^ ?s) \<le> 2 * ?M + 2 ^ ?s" by (rule round_shift_le)
    also have "\<dots> \<le> 200 * m + 128" using p128 by simp
    also have "\<dots> < 200 * Suc m" by simp
    also have "\<dots> \<le> 200 * 2 ^ ?k" using mk by simp
    finally have "?q * 2 ^ ?s < 100 * 2 ^ ?k" by (simp add: mult.commute)
    then have "real (?q * 2 ^ ?s) < real (100 * 2 ^ ?k)" by (rule iffD2 [OF of_nat_less_iff])
    then have lt: "real ?q * 2 ^ ?s < 100 * 2 ^ ?k" by simp
    have "2 powi ?E = (2::real) ^ ?s / 2 ^ ?k"
      using neg by (rule powi_split)
    then have "real ?q * 2 powi ?E = (real ?q * 2 ^ ?s) / 2 ^ ?k" by simp
    also have "\<dots> < 100" using lt by (simp add: divide_less_eq)
    finally show ?thesis .
  qed
  have fits: "\<not> (0 \<le> ?E \<and> overflow_threshold \<le> ?q * 2 ^ nat ?E)"
  proof
    assume big: "0 \<le> ?E \<and> overflow_threshold \<le> ?q * 2 ^ nat ?E"
    then have "2 powi ?E = (2::real) ^ nat ?E" by (simp add: power_int_def)
    with small have "real (?q * 2 ^ nat ?E) < 100" by simp
    then have "?q * 2 ^ nat ?E < 100" by linarith
    moreover have "100 < overflow_threshold" by (rule hundred_below_threshold)
    ultimately show False using big by linarith
  qed
  have "js_times r hundred = Finite ?q ?E"
    using Finite fits by (simp add: hundred_def round_product_def Let_def shift)
  with small show ?thesis by blast
next
  case Infinity
  with assms show ?thesis by simp
next
  case NaN
  with assms show ?thesis by simp
qed

text \<open>
  Two products as the program computes them: one half times 100 is exact, and the
  double nearest to 0.07 times 100 is rounded up, to \<open>7 + 2 ^ - 50\<close>.
\<close>

lemma steady_speed: "js_times (steady k) hundred = Finite 100 (- 1)"
  by (simp add: steady_def hundred_def round_product_def round_shift_def excess.simps Let_def)

lemma rounded_product_example:
  "js_times (Finite 5044031582654956 (- 56)) hundred = Finite 7881299347898369 (- 50)"
  by (simp add: hundred_def round_product_def round_shift_def excess.simps Let_def)

section \<open>Facts about the runtime\<close>

lemma take_next_None: "take_next ts = None \<longleftrightarrow> ts = []"
  by (cases ts) (auto split: option.splits)

lemma take_next_split:
  "take_next ts = Some (u, rest) \<Longrightarrow>
   \<exists>as bs. ts = as @ u # bs \<and> rest = as @ bs \<and>
     (\<forall>a\<in>set as. fst u < fst a) \<and> (\<forall>b\<in>set bs. fst u \<le> fst b)"
proof (induction ts arbitrary: u rest)
  case Nil
  then show ?case by simp
next
  case (Cons t ts)
  show ?case
  proof (cases "take_next ts")
    case None
    then have "ts = []" by (simp add: take_next_None)
    with Cons.prems show ?thesis by simp
  next
    case (Some ur)
    obtain u' rest' where ur: "ur = (u', rest')" by (cases ur)
    from Cons.IH [of u' rest'] Some ur obtain as bs where
      split: "ts = as @ u' # bs" "rest' = as @ bs"
        "\<forall>a\<in>set as. fst u' < fst a" "\<forall>b\<in>set bs. fst u' \<le> fst b"
      by auto
    show ?thesis
    proof (cases "fst t \<le> fst u'")
      case True
      with Cons.prems Some ur have "u = t" "rest = ts" by simp_all
      moreover have "\<forall>b\<in>set ts. fst t \<le> fst b"
        using split True by (auto simp: less_imp_le dest: order_trans)
      ultimately have "t # ts = [] @ u # ts \<and> rest = [] @ ts \<and>
          (\<forall>a\<in>set []. fst u < fst a) \<and> (\<forall>b\<in>set ts. fst u \<le> fst b)"
        by simp
      then show ?thesis by blast
    next
      case False
      with Cons.prems Some ur have "u = u'" "rest = t # rest'" by simp_all
      with split False have "t # ts = (t # as) @ u # bs \<and> rest = (t # as) @ bs \<and>
          (\<forall>a\<in>set (t # as). fst u < fst a) \<and> (\<forall>b\<in>set bs. fst u \<le> fst b)"
        by auto
      then show ?thesis by blast
    qed
  qed
qed

lemma simulated_eq:
  "simulated r w =
     (length (promises w),
      w\<lparr>promises := promises w @ [Pending],
        timers := timers w @ [(clock w + delay_of r, callback_of (length (promises w)) r)]\<rparr>)"
  by (cases r) (simp_all add: new_Promise_def setTimeout_def Let_def)

lemma fetchTelemetryData_simulated: "fetchTelemetryData v = simulated (Succeed 1000 v)"
  by (simp add: fetchTelemetryData_def)

lemma map_fetch_simulated:
  "map_fetch simulated rs w =
     ([length (promises w) ..< length (promises w) + length rs],
      w\<lparr>promises := promises w @ replicate (length rs) Pending,
        timers := timers w @ map (timer_of (clock w) (length (promises w)) rs) [0 ..< length rs]\<rparr>)"
proof (induction rs arbitrary: w)
  case Nil
  then show ?case by simp
next
  case (Cons r rs)
  let ?k = "length (promises w)"
  have tm: "map (timer_of (clock w) ?k (r # rs)) [0 ..< Suc (length rs)] =
      (clock w + delay_of r, callback_of ?k r) # map (timer_of (clock w) (Suc ?k) rs) [0 ..< length rs]"
    by (simp add: map_upt_Suc timer_of_def del: upt_Suc)
  let ?w1 = "w\<lparr>promises := promises w @ [Pending],
        timers := timers w @ [(clock w + delay_of r, callback_of ?k r)]\<rparr>"
  have child: "simulated r w = (?k, ?w1)"
    by (rule simulated_eq)
  have rest: "map_fetch simulated rs ?w1 =
      ([Suc ?k ..< Suc ?k + length rs],
       ?w1\<lparr>promises := promises ?w1 @ replicate (length rs) Pending,
         timers := timers ?w1 @ map (timer_of (clock ?w1) (length (promises ?w1)) rs) [0 ..< length rs]\<rparr>)"
    using Cons.IH [of ?w1] by simp
  have ups: "[?k ..< ?k + length (r # rs)] = ?k # [Suc ?k ..< Suc ?k + length rs]"
    using upt_conv_Cons [of ?k "?k + Suc (length rs)"] by simp
  show ?case
    using ups by (simp add: child rest tm replicate_append_same del: upt_Suc)
qed

lemma map_fetch_fetchTelemetryData:
  "map_fetch fetchTelemetryData ids w = map_fetch simulated (map (Succeed 1000) ids) w"
  by (induction ids arbitrary: w) (simp_all add: fetchTelemetryData_simulated)

lemma index_of_nth: "distinct xs \<Longrightarrow> i < length xs \<Longrightarrow> index_of (xs ! i) xs = Some i"
proof (induction xs arbitrary: i)
  case Nil
  then show ?case by simp
next
  case (Cons x xs)
  then show ?case by (cases i) auto
qed

lemma index_of_upt: "j < n \<Longrightarrow> index_of (k + j) [k ..< k + n] = Some j"
  using index_of_nth [of "[k ..< k + n]" j] by simp

lemma those_all_Some:
  "\<forall>i<length xs. \<exists>v. xs ! i = Some v \<Longrightarrow> those xs = Some (map the xs)"
proof (induction xs)
  case Nil
  then show ?case by simp
next
  case (Cons x xs)
  from Cons.prems have "\<exists>v. (x # xs) ! 0 = Some v" by blast
  then obtain v where x: "x = Some v" by auto
  have "\<forall>i<length xs. \<exists>v. xs ! i = Some v"
  proof (intro allI impI)
    fix i assume "i < length xs"
    then have "\<exists>v. (x # xs) ! Suc i = Some v" using Cons.prems by (metis Suc_less_eq length_Cons)
    then show "\<exists>v. xs ! i = Some v" by simp
  qed
  with Cons.IH x show ?case by simp
qed

lemma heap_resume [simp]: "heap (resume w) = heap w"
  by (simp add: resume_def try_rest_def catch_block_def split: option.splits promise.splits)

lemma promises_resume [simp]: "promises (resume w) = promises w"
  by (simp add: resume_def try_rest_def catch_block_def split: option.splits promise.splits)

lemma aggregate_resume [simp]: "aggregate (resume w) = aggregate w"
  by (simp add: resume_def try_rest_def catch_block_def split: option.splits promise.splits)

lemma clock_resume [simp]: "clock (resume w) = clock w"
  by (simp add: resume_def try_rest_def catch_block_def split: option.splits promise.splits)

lemma draws_resume [simp]: "draws (resume w) = draws w"
  by (simp add: resume_def try_rest_def catch_block_def split: option.splits promise.splits)

lemma resume_pending:
  "aggregate w = Some a \<Longrightarrow> all_promise a = Pending \<Longrightarrow> resume w = w"
  by (simp add: resume_def split: option.splits promise.splits)

lemma resume_returned:
  "returned w \<noteq> Some Pending \<Longrightarrow> resume w = w"
  by (simp add: resume_def split: option.splits promise.splits)

lemma resume_fulfilled:
  "aggregate w = Some a \<Longrightarrow> all_promise a = Fulfilled data \<Longrightarrow> returned w = Some Pending \<Longrightarrow>
   resume w = try_rest data w"
  by (simp add: resume_def)

lemma resume_rejected:
  "aggregate w = Some a \<Longrightarrow> all_promise a = Rejected e \<Longrightarrow> returned w = Some Pending \<Longrightarrow>
   resume w = catch_block e w"
  by (simp add: resume_def)

lemma fire_resolve:
  assumes "p < length (promises w)" and "promises w ! p = Pending"
    and "aggregate w = Some a" and "index_of p (children a) = Some i"
  shows "fire rnd (d, Resolve_telemetry p v) w =
    resume (w\<lparr>clock := max (clock w) d, draws := Suc (draws w),
      promises := (promises w)[p := Fulfilled \<lparr>vehicleId = v, speed = js_times (rnd (draws w)) hundred\<rparr>],
      aggregate := Some (resolve_element i \<lparr>vehicleId = v, speed = js_times (rnd (draws w)) hundred\<rparr> a)\<rparr>)"
  using assms by (simp add: fire_def Math_random_def settle_def react_def)

lemma fire_reject:
  assumes "p < length (promises w)" and "promises w ! p = Pending"
    and "aggregate w = Some a" and "index_of p (children a) = Some i"
  shows "fire rnd (d, Reject_reason p e) w =
    resume (w\<lparr>clock := max (clock w) d,
      promises := (promises w)[p := Rejected e],
      aggregate := Some (settle_all (Rejected e) a)\<rparr>)"
  using assms by (simp add: fire_def settle_def react_def)

lemma heap_react [simp]: "heap (react p w) = heap w"
  by (simp add: react_def split: option.splits promise.splits)

lemma promises_react [simp]: "promises (react p w) = promises w"
  by (simp add: react_def split: option.splits promise.splits)

lemma clock_react [simp]: "clock (react p w) = clock w"
  by (simp add: react_def split: option.splits promise.splits)

lemma heap_settle [simp]: "heap (settle p s w) = heap w"
  by (simp add: settle_def)

lemma clock_settle [simp]: "clock (settle p s w) = clock w"
  by (simp add: settle_def)

lemma promises_settle:
  "promises (settle p s w) =
     (if p < length (promises w) \<and> promises w ! p = Pending then (promises w)[p := s]
      else promises w)"
  by (simp add: settle_def)

lemma heap_fire [simp]: "heap (fire rnd t w) = heap w"
  by (cases "snd t") (simp_all add: fire_def Math_random_def)

lemma clock_fire [simp]: "clock (fire rnd t w) = max (clock w) (fst t)"
  by (cases "snd t") (simp_all add: fire_def Math_random_def)

lemma promises_fire:
  "promises (fire rnd t w) =
     (if target (snd t) < length (promises w) \<and> promises w ! target (snd t) = Pending
      then (promises w)[target (snd t) :=
        (case snd t of
           Resolve_telemetry p v \<Rightarrow> Fulfilled \<lparr>vehicleId = v, speed = js_times (rnd (draws w)) hundred\<rparr>
         | Reject_reason p e \<Rightarrow> Rejected e)]
      else promises w)"
  by (cases "snd t") (simp_all add: fire_def Math_random_def promises_settle)

lemma length_promises_fire [simp]: "length (promises (fire rnd t w)) = length (promises w)"
  by (simp add: promises_fire)

lemma take_promises_fire:
  "k \<le> target (snd t) \<Longrightarrow> take k (promises (fire rnd t w)) = take k (promises w)"
  by (simp add: promises_fire)

lemma all_promise_settle_all_settled:
  "all_promise a \<noteq> Pending \<Longrightarrow> settle_all s a = a"
  by (simp add: settle_all_def)

lemma all_promise_resolve_element_settled:
  "all_promise a \<noteq> Pending \<Longrightarrow> all_promise (resolve_element i v a) = all_promise a"
  by (simp add: resolve_element_def settle_all_def Let_def split: option.splits)

lemma react_settled:
  assumes "aggregate w = Some a" and "all_promise a \<noteq> Pending" and "returned w \<noteq> Some Pending"
  shows "returned (react p w) = returned w \<and> console (react p w) = console w \<and>
    (\<exists>a'. aggregate (react p w) = Some a' \<and> all_promise a' = all_promise a)"
  using assms
  by (simp add: react_def resume_returned all_promise_settle_all_settled
        all_promise_resolve_element_settled split: option.splits promise.splits)

lemma fire_settled:
  assumes "aggregate w = Some a" and "all_promise a \<noteq> Pending" and "returned w \<noteq> Some Pending"
  shows "returned (fire rnd t w) = returned w \<and> console (fire rnd t w) = console w \<and>
    (\<exists>a'. aggregate (fire rnd t w) = Some a' \<and> all_promise a' = all_promise a)"
proof (cases "snd t")
  case (Resolve_telemetry p v)
  let ?w1 = "w\<lparr>clock := max (clock w) (fst t), draws := Suc (draws w)\<rparr>"
  let ?x = "Fulfilled \<lparr>vehicleId = v, speed = js_times (rnd (draws w)) hundred\<rparr>"
  have f: "fire rnd t w = settle p ?x ?w1"
    using Resolve_telemetry by (simp add: fire_def Math_random_def)
  show ?thesis
  proof (cases "p < length (promises w) \<and> promises w ! p = Pending")
    case True
    then have "settle p ?x ?w1 = react p (?w1\<lparr>promises := (promises w)[p := ?x]\<rparr>)"
      by (simp add: settle_def)
    with f assms react_settled [of "?w1\<lparr>promises := (promises w)[p := ?x]\<rparr>" a p]
    show ?thesis by simp
  next
    case False
    then have "settle p ?x ?w1 = ?w1" by (auto simp: settle_def)
    with f assms show ?thesis by simp
  qed
next
  case (Reject_reason p e)
  let ?w1 = "w\<lparr>clock := max (clock w) (fst t)\<rparr>"
  have f: "fire rnd t w = settle p (Rejected e) ?w1"
    using Reject_reason by (simp add: fire_def)
  show ?thesis
  proof (cases "p < length (promises w) \<and> promises w ! p = Pending")
    case True
    then have "settle p (Rejected e) ?w1 = react p (?w1\<lparr>promises := (promises w)[p := Rejected e]\<rparr>)"
      by (simp add: settle_def)
    with f assms react_settled [of "?w1\<lparr>promises := (promises w)[p := Rejected e]\<rparr>" a p]
    show ?thesis by simp
  next
    case False
    then have "settle p (Rejected e) ?w1 = ?w1" by (auto simp: settle_def)
    with f assms show ?thesis by simp
  qed
qed

lemma timers_event_loop [simp]: "timers (event_loop rnd w) = []"
proof (induction rnd w rule: event_loop.induct)
  case (1 rnd w)
  show ?case
  proof (cases "take_next (timers w)")
    case None
    then show ?thesis by (simp add: event_loop.simps [of rnd w] take_next_None)
  next
    case (Some ur)
    obtain u rest where "ur = (u, rest)" by (cases ur)
    with Some 1 show ?thesis by (simp add: event_loop.simps [of rnd w])
  qed
qed

lemma heap_event_loop [simp]: "heap (event_loop rnd w) = heap w"
proof (induction rnd w rule: event_loop.induct)
  case (1 rnd w)
  show ?case
  proof (cases "take_next (timers w)")
    case None
    then show ?thesis by (simp add: event_loop.simps [of rnd w])
  next
    case (Some ur)
    obtain u rest where "ur = (u, rest)" by (cases ur)
    with Some 1 show ?thesis by (simp add: event_loop.simps [of rnd w])
  qed
qed

lemma fst_timer_of [simp]: "fst (timer_of now k rs i) = now + delay_of (rs ! i)"
  by (simp add: timer_of_def)

lemma target_timer_of [simp]: "target (snd (timer_of now k rs i)) = k + i"
  by (cases "rs ! i") (simp_all add: timer_of_def)

lemma take_next_map:
  assumes "take_next (map (timer_of now k rs) js) = Some (t, rest)"
  obtains as j bs where "js = as @ j # bs" and "t = timer_of now k rs j"
    and "rest = map (timer_of now k rs) (as @ bs)"
    and "\<forall>i\<in>set as. delay_of (rs ! j) < delay_of (rs ! i)"
    and "\<forall>i\<in>set bs. delay_of (rs ! j) \<le> delay_of (rs ! i)"
proof -
  from take_next_split [OF assms] obtain ta tb where
    sp: "map (timer_of now k rs) js = ta @ t # tb" "rest = ta @ tb"
      "\<forall>a\<in>set ta. fst t < fst a" "\<forall>b\<in>set tb. fst t \<le> fst b"
    by blast
  from sp(1) obtain as js' where 1: "js = as @ js'" "ta = map (timer_of now k rs) as"
      "t # tb = map (timer_of now k rs) js'"
    by (auto simp: map_eq_append_conv)
  from 1(3) obtain j bs where 2: "js' = j # bs" "t = timer_of now k rs j"
      "tb = map (timer_of now k rs) bs"
    by (auto simp: Cons_eq_map_conv)
  show thesis
  proof (rule that [of as j bs])
    show "js = as @ j # bs" using 1 2 by simp
    show "t = timer_of now k rs j" by (rule 2)
    show "rest = map (timer_of now k rs) (as @ bs)" using sp 1 2 by simp
    show "\<forall>i\<in>set as. delay_of (rs ! j) < delay_of (rs ! i)" using sp(3) 1 2 by simp
    show "\<forall>i\<in>set bs. delay_of (rs ! j) \<le> delay_of (rs ! i)" using sp(4) 1 2 by simp
  qed
qed

lemma pending_invD:
  assumes "pending_inv rnd rs w0 js w"
  obtains a where "timers w = map (timer_of (clock w0) (length (promises w0)) rs) js"
    and "sorted_wrt (<) js" and "set js \<subseteq> {..<length rs}"
    and "length (promises w) = length (promises w0) + length rs"
    and "take (length (promises w0)) (promises w) = promises w0"
    and "\<forall>j\<in>set js. promises w ! (length (promises w0) + j) = Pending"
    and "heap w = heap w0" and "console w = console w0" and "returned w = Some Pending"
    and "aggregate w = Some a"
    and "children a = [length (promises w0) ..< length (promises w0) + length rs]"
    and "length (slots a) = length rs" and "remaining a = length js"
    and "all_promise a = Pending"
    and "\<forall>i<length rs.
           if i \<in> set js then slots a ! i = None
           else (\<exists>ms v s. rs ! i = Succeed ms v \<and>
                  slots a ! i = Some \<lparr>vehicleId = v, speed = js_times (rnd s) hundred\<rparr>)"
  using assms unfolding pending_inv_def by blast

lemma pending_invI:
  assumes "timers w = map (timer_of (clock w0) (length (promises w0)) rs) js"
    and "sorted_wrt (<) js" and "set js \<subseteq> {..<length rs}"
    and "length (promises w) = length (promises w0) + length rs"
    and "take (length (promises w0)) (promises w) = promises w0"
    and "\<forall>j\<in>set js. promises w ! (length (promises w0) + j) = Pending"
    and "heap w = heap w0" and "console w = console w0" and "returned w = Some Pending"
    and "aggregate w = Some a"
    and "children a = [length (promises w0) ..< length (promises w0) + length rs]"
    and "length (slots a) = length rs" and "remaining a = length js"
    and "all_promise a = Pending"
    and "\<forall>i<length rs.
           if i \<in> set js then slots a ! i = None
           else (\<exists>ms v s. rs ! i = Succeed ms v \<and>
                  slots a ! i = Some \<lparr>vehicleId = v, speed = js_times (rnd s) hundred\<rparr>)"
  shows "pending_inv rnd rs w0 js w"
  unfolding pending_inv_def using assms by blast

lemma step_succeed_more:
  assumes inv: "pending_inv rnd rs w0 (as @ j # bs) w"
    and r: "rs ! j = Succeed ms v" and ne: "as @ bs \<noteq> []"
  shows "pending_inv rnd rs w0 (as @ bs)
    (fire rnd (timer_of (clock w0) (length (promises w0)) rs j)
       (w\<lparr>timers := map (timer_of (clock w0) (length (promises w0)) rs) (as @ bs)\<rparr>))"
proof -
  let ?k = "length (promises w0)"
  let ?n = "length rs"
  let ?T = "timer_of (clock w0) ?k rs"
  let ?x = "\<lparr>vehicleId = v, speed = js_times (rnd (draws w)) hundred\<rparr>"
  let ?w2 = "w\<lparr>timers := map ?T (as @ bs)\<rparr>"
  from inv obtain a where
    sorted: "sorted_wrt (<) (as @ j # bs)" and sub: "set (as @ j # bs) \<subseteq> {..<?n}"
    and len: "length (promises w) = ?k + ?n"
    and pre: "take ?k (promises w) = promises w0"
    and pend: "\<forall>i\<in>set (as @ j # bs). promises w ! (?k + i) = Pending"
    and hp: "heap w = heap w0" and con: "console w = console w0"
    and ret: "returned w = Some Pending"
    and agg: "aggregate w = Some a" and ch: "children a = [?k ..< ?k + ?n]"
    and ls: "length (slots a) = ?n" and rem: "remaining a = length (as @ j # bs)"
    and ap: "all_promise a = Pending"
    and sl: "\<forall>i<?n. if i \<in> set (as @ j # bs) then slots a ! i = None
           else (\<exists>ms v s. rs ! i = Succeed ms v \<and>
                  slots a ! i = Some \<lparr>vehicleId = v, speed = js_times (rnd s) hundred\<rparr>)"
    by (rule pending_invD)
  have jn: "j < ?n" using sub by simp
  have jnot: "j \<notin> set as" "j \<notin> set bs" using sorted by (auto simp: sorted_wrt_append)
  have T: "?T j = (clock w0 + ms, Resolve_telemetry (?k + j) v)"
    using r by (simp add: timer_of_def)
  have idx: "index_of (?k + j) (children a) = Some j"
    using ch jn by (simp add: index_of_upt)
  let ?a' = "a\<lparr>slots := (slots a)[j := Some ?x], remaining := length (as @ bs)\<rparr>"
  have re: "resolve_element j ?x a = ?a'"
    using rem ne by (auto simp: resolve_element_def Let_def)
  let ?w3 = "?w2\<lparr>clock := max (clock w) (clock w0 + ms), draws := Suc (draws w),
      promises := (promises w)[?k + j := Fulfilled ?x], aggregate := Some ?a'\<rparr>"
  have "fire rnd (?T j) ?w2 = resume ?w3"
    unfolding T using fire_resolve [of "?k + j" ?w2 a j rnd "clock w0 + ms" v] len jn pend agg idx re
    by simp
  also have "resume ?w3 = ?w3"
    by (rule resume_pending [of _ ?a']) (simp_all add: ap)
  finally have f: "fire rnd (?T j) ?w2 = ?w3" .
  have slots': "\<forall>i<?n. if i \<in> set (as @ bs) then slots ?a' ! i = None
           else (\<exists>ms v s. rs ! i = Succeed ms v \<and>
                  slots ?a' ! i = Some \<lparr>vehicleId = v, speed = js_times (rnd s) hundred\<rparr>)"
  proof (intro allI impI)
    fix i assume i: "i < ?n"
    show "if i \<in> set (as @ bs) then slots ?a' ! i = None
           else (\<exists>ms v s. rs ! i = Succeed ms v \<and>
                  slots ?a' ! i = Some \<lparr>vehicleId = v, speed = js_times (rnd s) hundred\<rparr>)"
    proof (cases "i = j")
      case True
      then show ?thesis using jnot r ls jn by auto
    next
      case False
      then show ?thesis using sl i by auto
    qed
  qed
  have pend': "\<forall>i\<in>set (as @ bs). promises ?w3 ! (?k + i) = Pending"
  proof
    fix i assume i: "i \<in> set (as @ bs)"
    then have "i \<noteq> j" using jnot by auto
    then have "?k + j \<noteq> ?k + i" by simp
    then have "(promises w)[?k + j := Fulfilled ?x] ! (?k + i) = promises w ! (?k + i)"
      by (rule nth_list_update_neq)
    moreover have "promises w ! (?k + i) = Pending" using pend i by auto
    ultimately show "promises ?w3 ! (?k + i) = Pending" by simp
  qed
  show ?thesis
    unfolding f
  proof (rule pending_invI [where a = ?a'])
    show "timers ?w3 = map ?T (as @ bs)" by simp
    show "sorted_wrt (<) (as @ bs)" using sorted by (auto simp: sorted_wrt_append)
    show "set (as @ bs) \<subseteq> {..<?n}" using sub by auto
    show "length (promises ?w3) = ?k + ?n" using len by simp
    show "take ?k (promises ?w3) = promises w0" using pre by simp
    show "\<forall>i\<in>set (as @ bs). promises ?w3 ! (?k + i) = Pending" by (rule pend')
    show "heap ?w3 = heap w0" using hp by simp
    show "console ?w3 = console w0" using con by simp
    show "returned ?w3 = Some Pending" using ret by simp
    show "aggregate ?w3 = Some ?a'" by simp
    show "children ?a' = [?k ..< ?k + ?n]" using ch by simp
    show "length (slots ?a') = ?n" using ls by simp
    show "remaining ?a' = length (as @ bs)" by simp
    show "all_promise ?a' = Pending" using ap by simp
    show "\<forall>i<?n. if i \<in> set (as @ bs) then slots ?a' ! i = None
           else (\<exists>ms v s. rs ! i = Succeed ms v \<and>
                  slots ?a' ! i = Some \<lparr>vehicleId = v, speed = js_times (rnd s) hundred\<rparr>)"
      by (rule slots')
  qed
qed

lemma step_succeed_last:
  assumes inv: "pending_inv rnd rs w0 [j] w" and r: "rs ! j = Succeed ms v"
  shows "fulfilled_post rnd rs w0
    (fire rnd (timer_of (clock w0) (length (promises w0)) rs j) (w\<lparr>timers := []\<rparr>))"
proof -
  let ?k = "length (promises w0)"
  let ?n = "length rs"
  let ?T = "timer_of (clock w0) ?k rs"
  let ?x = "\<lparr>vehicleId = v, speed = js_times (rnd (draws w)) hundred\<rparr>"
  let ?w2 = "w\<lparr>timers := []\<rparr>"
  from inv obtain a where
    sub: "set [j] \<subseteq> {..<?n}"
    and len: "length (promises w) = ?k + ?n"
    and pre: "take ?k (promises w) = promises w0"
    and pend: "\<forall>i\<in>set [j]. promises w ! (?k + i) = Pending"
    and hp: "heap w = heap w0" and con: "console w = console w0"
    and ret: "returned w = Some Pending"
    and agg: "aggregate w = Some a" and ch: "children a = [?k ..< ?k + ?n]"
    and ls: "length (slots a) = ?n" and rem: "remaining a = length [j]"
    and ap: "all_promise a = Pending"
    and sl: "\<forall>i<?n. if i \<in> set [j] then slots a ! i = None
           else (\<exists>ms v s. rs ! i = Succeed ms v \<and>
                  slots a ! i = Some \<lparr>vehicleId = v, speed = js_times (rnd s) hundred\<rparr>)"
    by (rule pending_invD)
  have jn: "j < ?n" using sub by simp
  have T: "?T j = (clock w0 + ms, Resolve_telemetry (?k + j) v)"
    using r by (simp add: timer_of_def)
  have idx: "index_of (?k + j) (children a) = Some j"
    using ch jn by (simp add: index_of_upt)
  let ?slots = "(slots a)[j := Some ?x]"
  have filled: "\<forall>i<?n. \<exists>ms v s. rs ! i = Succeed ms v \<and>
      ?slots ! i = Some \<lparr>vehicleId = v, speed = js_times (rnd s) hundred\<rparr>"
  proof (intro allI impI)
    fix i assume i: "i < ?n"
    show "\<exists>ms v s. rs ! i = Succeed ms v \<and> ?slots ! i = Some \<lparr>vehicleId = v, speed = js_times (rnd s) hundred\<rparr>"
    proof (cases "i = j")
      case True
      then show ?thesis using r ls jn by auto
    next
      case False
      then show ?thesis using sl i by auto
    qed
  qed
  let ?data = "map the ?slots"
  have "\<forall>i<length ?slots. \<exists>v. ?slots ! i = Some v"
    using filled ls by auto
  then have those: "those ?slots = Some ?data" by (rule those_all_Some)
  let ?a' = "a\<lparr>slots := ?slots, remaining := 0, all_promise := Fulfilled ?data\<rparr>"
  have re: "resolve_element j ?x a = ?a'"
    using rem ap those by (simp add: resolve_element_def Let_def settle_all_def)
  let ?w3 = "?w2\<lparr>clock := max (clock w) (clock w0 + ms), draws := Suc (draws w),
      promises := (promises w)[?k + j := Fulfilled ?x], aggregate := Some ?a'\<rparr>"
  have "fire rnd (?T j) ?w2 = resume ?w3"
    unfolding T using fire_resolve [of "?k + j" ?w2 a j rnd "clock w0 + ms" v] len jn pend agg idx re
    by simp
  also have "resume ?w3 = try_rest ?data ?w3"
    by (rule resume_fulfilled [of _ ?a']) (simp_all add: ret)
  finally have f: "fire rnd (?T j) ?w2 = try_rest ?data ?w3" .
  have data: "\<forall>i<?n. \<exists>ms v s. rs ! i = Succeed ms v \<and>
      ?data ! i = \<lparr>vehicleId = v, speed = js_times (rnd s) hundred\<rparr>"
  proof (intro allI impI)
    fix i assume i: "i < ?n"
    with filled obtain ms' v' s where "rs ! i = Succeed ms' v'"
      "?slots ! i = Some \<lparr>vehicleId = v', speed = js_times (rnd s) hundred\<rparr>" by blast
    moreover have "?data ! i = the (?slots ! i)" using i ls by simp
    ultimately have "rs ! i = Succeed ms' v' \<and> ?data ! i = \<lparr>vehicleId = v', speed = js_times (rnd s) hundred\<rparr>"
      by simp
    then show "\<exists>ms v s. rs ! i = Succeed ms v \<and> ?data ! i = \<lparr>vehicleId = v, speed = js_times (rnd s) hundred\<rparr>"
      by blast
  qed
  have "telemetryData (try_rest ?data ?w3) = Some ?data"
    by (simp add: telemetryData_def try_rest_def)
  moreover have "length ?data = ?n" using ls by simp
  moreover have "console (try_rest ?data ?w3) = console w0 @ Log ''Telemetry Data:'' #
      map (\<lambda>data. Log_vehicle (vehicleId data) (speed data)) ?data"
    using con by (simp add: try_rest_def)
  moreover have "heap (try_rest ?data ?w3) = heap w0" using hp by (simp add: try_rest_def)
  moreover have "take ?k (promises (try_rest ?data ?w3)) = promises w0"
    using pre by (simp add: try_rest_def)
  moreover have "returned (try_rest ?data ?w3) = Some (Fulfilled Undefined)"
    by (simp add: try_rest_def)
  ultimately show ?thesis
    unfolding f fulfilled_post_def using data by blast
qed

lemma step_fail:
  assumes inv: "pending_inv rnd rs w0 (as @ j # bs) w" and r: "rs ! j = Fail d e"
  shows "rejected_inv rs w0 e
    (fire rnd (timer_of (clock w0) (length (promises w0)) rs j)
       (w\<lparr>timers := map (timer_of (clock w0) (length (promises w0)) rs) (as @ bs)\<rparr>))"
proof -
  let ?k = "length (promises w0)"
  let ?n = "length rs"
  let ?T = "timer_of (clock w0) ?k rs"
  let ?w2 = "w\<lparr>timers := map ?T (as @ bs)\<rparr>"
  from inv obtain a where
    sub: "set (as @ j # bs) \<subseteq> {..<?n}"
    and len: "length (promises w) = ?k + ?n"
    and pre: "take ?k (promises w) = promises w0"
    and pend: "\<forall>i\<in>set (as @ j # bs). promises w ! (?k + i) = Pending"
    and hp: "heap w = heap w0" and con: "console w = console w0"
    and ret: "returned w = Some Pending"
    and agg: "aggregate w = Some a" and ch: "children a = [?k ..< ?k + ?n]"
    and ap: "all_promise a = Pending"
    by (rule pending_invD)
  have jn: "j < ?n" using sub by simp
  have T: "?T j = (clock w0 + d, Reject_reason (?k + j) e)"
    using r by (simp add: timer_of_def)
  have idx: "index_of (?k + j) (children a) = Some j"
    using ch jn by (simp add: index_of_upt)
  let ?a' = "a\<lparr>all_promise := Rejected e\<rparr>"
  have re: "settle_all (Rejected e) a = ?a'" using ap by (simp add: settle_all_def)
  let ?w3 = "?w2\<lparr>clock := max (clock w) (clock w0 + d),
      promises := (promises w)[?k + j := Rejected e], aggregate := Some ?a'\<rparr>"
  have "fire rnd (?T j) ?w2 = resume ?w3"
    unfolding T using fire_reject [of "?k + j" ?w2 a j rnd "clock w0 + d" e] len jn pend agg idx re
    by simp
  also have "resume ?w3 = catch_block e ?w3"
    by (rule resume_rejected [of _ ?a']) (simp_all add: ret)
  finally have f: "fire rnd (?T j) ?w2 = catch_block e ?w3" .
  have "\<exists>js. timers (catch_block e ?w3) = map ?T js"
    by (rule exI [of _ "as @ bs"]) (simp add: catch_block_def)
  then show ?thesis
    unfolding f rejected_inv_def using hp con pre
    by (simp add: catch_block_def)
qed

lemma pick_first_failure:
  assumes inv: "pending_inv rnd rs w0 (as @ j # bs) w" and r: "rs ! j = Fail d e"
    and before: "\<forall>i\<in>set as. delay_of (rs ! j) < delay_of (rs ! i)"
    and after: "\<forall>i\<in>set bs. delay_of (rs ! j) \<le> delay_of (rs ! i)"
  shows "first_failure rs j d e"
proof -
  from inv obtain a where
    sorted: "sorted_wrt (<) (as @ j # bs)" and sub: "set (as @ j # bs) \<subseteq> {..<length rs}"
    and agg: "aggregate w = Some a"
    and sl: "\<forall>i<length rs. if i \<in> set (as @ j # bs) then slots a ! i = None
           else (\<exists>ms v s. rs ! i = Succeed ms v \<and>
                  slots a ! i = Some \<lparr>vehicleId = v, speed = js_times (rnd s) hundred\<rparr>)"
    by (rule pending_invD)
  have jn: "j < length rs" using sub by simp
  have later: "\<forall>i\<in>set bs. j < i" using sorted by (auto simp: sorted_wrt_append)
  have "d < d' \<or> (d = d' \<and> j \<le> i)" if i: "i < length rs" and f: "rs ! i = Fail d' e'" for i d' e'
  proof -
    have "i \<in> set (as @ j # bs)"
    proof (rule ccontr)
      assume "i \<notin> set (as @ j # bs)"
      with sl i have "\<exists>ms v s. rs ! i = Succeed ms v \<and>
          slots a ! i = Some \<lparr>vehicleId = v, speed = js_times (rnd s) hundred\<rparr>" by auto
      with f show False by auto
    qed
    then consider "i \<in> set as" | "i = j" | "i \<in> set bs" by auto
    then show ?thesis
    proof cases
      case 1
      with before r f show ?thesis by auto
    next
      case 2
      with r f show ?thesis by auto
    next
      case 3
      with after later r f show ?thesis by (auto simp: le_less)
    qed
  qed
  with jn r show ?thesis unfolding first_failure_def by blast
qed

lemma rejected_invI:
  assumes "timers w = map (timer_of (clock w0) (length (promises w0)) rs) js"
    and "heap w = heap w0" and "take (length (promises w0)) (promises w) = promises w0"
    and "returned w = Some (Fulfilled Undefined)"
    and "console w = console w0 @ [Log_error ''Error fetching telemetry data:'' e]"
    and "aggregate w = Some a" and "all_promise a = Rejected e"
  shows "rejected_inv rs w0 e w"
  unfolding rejected_inv_def using assms by blast

lemma rejected_loop:
  "rejected_inv rs w0 e w \<Longrightarrow> rejected_inv rs w0 e (event_loop rnd w)"
proof (induction rnd w rule: event_loop.induct)
  case (1 rnd w)
  let ?k = "length (promises w0)"
  let ?T = "timer_of (clock w0) ?k rs"
  show ?case
  proof (cases "take_next (timers w)")
    case None
    then show ?thesis using "1.prems" by (simp add: event_loop.simps [of rnd w])
  next
    case (Some ur)
    obtain t rest where ur: "ur = (t, rest)" by (cases ur)
    from "1.prems" obtain js a where
      tm: "timers w = map ?T js" and hp: "heap w = heap w0"
      and pre: "take ?k (promises w) = promises w0"
      and ret: "returned w = Some (Fulfilled Undefined)"
      and con: "console w = console w0 @ [Log_error ''Error fetching telemetry data:'' e]"
      and agg: "aggregate w = Some a" and ap: "all_promise a = Rejected e"
      unfolding rejected_inv_def by blast
    from Some ur tm have "take_next (map ?T js) = Some (t, rest)" by simp
    then obtain as j bs where t: "t = ?T j" and rest: "rest = map ?T (as @ bs)"
      by (rule take_next_map)
    let ?w2 = "w\<lparr>timers := rest\<rparr>"
    have "returned (fire rnd t ?w2) = returned ?w2 \<and> console (fire rnd t ?w2) = console ?w2 \<and>
        (\<exists>a'. aggregate (fire rnd t ?w2) = Some a' \<and> all_promise a' = all_promise a)"
      by (rule fire_settled) (simp_all add: agg ap ret)
    then obtain a' where ret': "returned (fire rnd t ?w2) = returned ?w2"
      and con': "console (fire rnd t ?w2) = console ?w2"
      and agg': "aggregate (fire rnd t ?w2) = Some a'" and ap': "all_promise a' = all_promise a"
      by blast
    have pre': "take ?k (promises (fire rnd t ?w2)) = take ?k (promises ?w2)"
      by (rule take_promises_fire) (simp add: t)
    have "rejected_inv rs w0 e (fire rnd t ?w2)"
    proof (rule rejected_invI [where js = "as @ bs" and a = a'])
      show "timers (fire rnd t ?w2) = map ?T (as @ bs)" by (simp add: rest)
      show "heap (fire rnd t ?w2) = heap w0" by (simp add: hp)
      show "take ?k (promises (fire rnd t ?w2)) = promises w0" unfolding pre' by (simp add: pre)
      show "returned (fire rnd t ?w2) = Some (Fulfilled Undefined)" unfolding ret' by (simp add: ret)
      show "console (fire rnd t ?w2) = console w0 @ [Log_error ''Error fetching telemetry data:'' e]"
        unfolding con' by (simp add: con)
      show "aggregate (fire rnd t ?w2) = Some a'" by (rule agg')
      show "all_promise a' = Rejected e" unfolding ap' by (rule ap)
    qed
    then have "rejected_inv rs w0 e (event_loop rnd (fire rnd t ?w2))"
      by (rule "1.IH" [OF Some ur [symmetric]])
    moreover have "event_loop rnd w = event_loop rnd (fire rnd t ?w2)"
      using Some ur by (simp add: event_loop.simps [of rnd w])
    ultimately show ?thesis by simp
  qed
qed

lemma pending_loop:
  assumes "pending_inv rnd rs w0 js w" and "js \<noteq> []"
  shows "fulfilled_post rnd rs w0 (event_loop rnd w) \<or>
    (\<exists>j d e. first_failure rs j d e \<and> rejected_inv rs w0 e (event_loop rnd w))"
  using assms
proof (induction "length js" arbitrary: js w)
  case 0
  then show ?case by simp
next
  case (Suc m)
  let ?k = "length (promises w0)"
  let ?T = "timer_of (clock w0) ?k rs"
  from Suc.prems(1) have tm: "timers w = map ?T js" by (rule pending_invD)
  with Suc.prems(2) have "take_next (timers w) \<noteq> None" by (simp add: take_next_None)
  then obtain t rest where nx: "take_next (timers w) = Some (t, rest)" by auto
  then have "take_next (map ?T js) = Some (t, rest)" using tm by simp
  then obtain as j bs where js: "js = as @ j # bs" and t: "t = ?T j"
    and rest: "rest = map ?T (as @ bs)"
    and before: "\<forall>i\<in>set as. delay_of (rs ! j) < delay_of (rs ! i)"
    and after: "\<forall>i\<in>set bs. delay_of (rs ! j) \<le> delay_of (rs ! i)"
    by (rule take_next_map)
  let ?w' = "fire rnd t (w\<lparr>timers := rest\<rparr>)"
  have loop: "event_loop rnd w = event_loop rnd ?w'"
    using nx by (simp add: event_loop.simps [of rnd w])
  have inv: "pending_inv rnd rs w0 (as @ j # bs) w" using Suc.prems(1) js by simp
  show ?case
  proof (cases "rs ! j")
    case (Succeed ms v)
    show ?thesis
    proof (cases "as @ bs = []")
      case True
      then have "pending_inv rnd rs w0 [j] w" using inv by simp
      then have post: "fulfilled_post rnd rs w0 (fire rnd (?T j) (w\<lparr>timers := []\<rparr>))"
        using Succeed by (rule step_succeed_last)
      have "?w' = fire rnd (?T j) (w\<lparr>timers := []\<rparr>)" using True t rest by simp
      moreover have "take_next (timers ?w') = None" using True rest by simp
      then have "event_loop rnd ?w' = ?w'" by (simp add: event_loop.simps [of rnd ?w'])
      ultimately show ?thesis using post loop by simp
    next
      case False
      have "pending_inv rnd rs w0 (as @ bs) (fire rnd (?T j) (w\<lparr>timers := map ?T (as @ bs)\<rparr>))"
        using inv Succeed False by (rule step_succeed_more)
      then have "pending_inv rnd rs w0 (as @ bs) ?w'" using t rest by simp
      moreover have "m = length (as @ bs)" using Suc.hyps(2) js by simp
      ultimately show ?thesis using Suc.hyps(1) [of "as @ bs" ?w'] False loop by simp
    qed
  next
    case (Fail d e)
    have "rejected_inv rs w0 e (fire rnd (?T j) (w\<lparr>timers := map ?T (as @ bs)\<rparr>))"
      using inv Fail by (rule step_fail)
    then have "rejected_inv rs w0 e ?w'" using t rest by simp
    then have "rejected_inv rs w0 e (event_loop rnd w)" unfolding loop by (rule rejected_loop)
    moreover have "first_failure rs j d e"
      using inv Fail before after by (rule pick_first_failure)
    ultimately show ?thesis by blast
  qed
qed

lemma fetchAll_with_simulated:
  "fetchAll_with simulated rs w =
     resume (w\<lparr>promises := promises w @ replicate (length rs) Pending,
        timers := timers w @ map (timer_of (clock w) (length (promises w)) rs) [0 ..< length rs],
        aggregate := Some (Promise_all [length (promises w) ..< length (promises w) + length rs]),
        returned := Some Pending\<rparr>)"
  by (simp add: fetchAll_with_def map_fetch_simulated)

lemma fetchAll_with_initial:
  assumes idle: "timers w0 = []" and ne: "rs \<noteq> []"
  shows "pending_inv rnd rs w0 [0 ..< length rs] (fetchAll_with simulated rs w0)"
proof -
  let ?k = "length (promises w0)"
  let ?n = "length rs"
  let ?a = "Promise_all [?k ..< ?k + ?n] :: 'a all_state"
  let ?w = "w0\<lparr>promises := promises w0 @ replicate ?n Pending,
        timers := timers w0 @ map (timer_of (clock w0) ?k rs) [0 ..< ?n],
        aggregate := Some ?a, returned := Some Pending\<rparr>"
  have ap: "all_promise ?a = Pending" using ne by (simp add: Promise_all_def)
  have "resume ?w = ?w" by (rule resume_pending [of _ ?a]) (simp_all add: ap)
  then have f: "fetchAll_with simulated rs w0 = ?w" by (simp add: fetchAll_with_simulated)
  show ?thesis
    unfolding f
  proof (rule pending_invI [where a = ?a])
    show "timers ?w = map (timer_of (clock w0) ?k rs) [0 ..< ?n]" using idle by simp
    show "sorted_wrt (<) [0 ..< ?n]" by (rule sorted_wrt_upt)
    show "set [0 ..< ?n] \<subseteq> {..<?n}" by auto
    show "length (promises ?w) = ?k + ?n" by simp
    show "take ?k (promises ?w) = promises w0" by simp
    show "\<forall>j\<in>set [0 ..< ?n]. promises ?w ! (?k + j) = Pending" by (simp add: nth_append)
    show "heap ?w = heap w0" by simp
    show "console ?w = console w0" by simp
    show "returned ?w = Some Pending" by simp
    show "aggregate ?w = Some ?a" by simp
    show "children ?a = [?k ..< ?k + ?n]" by (simp add: Promise_all_def)
    show "length (slots ?a) = ?n" by (simp add: Promise_all_def)
    show "remaining ?a = length [0 ..< ?n]" by (simp add: Promise_all_def)
    show "all_promise ?a = Pending" by (rule ap)
    show "\<forall>i<?n. if i \<in> set [0 ..< ?n] then slots ?a ! i = None
           else (\<exists>ms v s. rs ! i = Succeed ms v \<and>
                  slots ?a ! i = Some \<lparr>vehicleId = v, speed = js_times (rnd s) hundred\<rparr>)"
      by (simp add: Promise_all_def)
  qed
qed

lemma fetchAll_with_empty:
  assumes idle: "timers w0 = []"
  shows "fulfilled_post rnd [] w0 (event_loop rnd (fetchAll_with simulated [] w0))"
proof -
  let ?w = "w0\<lparr>aggregate := Some (Promise_all []), returned := Some Pending\<rparr>"
  have "fetchAll_with simulated [] w0 = resume ?w" by (simp add: fetchAll_with_def)
  also have "resume ?w = try_rest [] ?w"
    by (rule resume_fulfilled [of _ "Promise_all []"]) (simp_all add: Promise_all_def)
  finally have f: "fetchAll_with simulated [] w0 = try_rest [] ?w" .
  have "timers (try_rest [] ?w) = []" using idle by (simp add: try_rest_def)
  then have "event_loop rnd (try_rest [] ?w) = try_rest [] ?w"
    by (simp add: event_loop.simps [of rnd "try_rest [] ?w"])
  then show ?thesis
    unfolding f by (simp add: fulfilled_post_def try_rest_def telemetryData_def Promise_all_def)
qed

lemma fetchAll_outcome:
  assumes idle: "timers w0 = []"
  shows "fulfilled_post rnd rs w0 (event_loop rnd (fetchAll_with simulated rs w0)) \<or>
    (\<exists>j d e. first_failure rs j d e \<and>
       rejected_inv rs w0 e (event_loop rnd (fetchAll_with simulated rs w0)))"
proof (cases "rs = []")
  case True
  then show ?thesis using fetchAll_with_empty [OF idle] by simp
next
  case False
  with idle have "pending_inv rnd rs w0 [0 ..< length rs] (fetchAll_with simulated rs w0)"
    by (rule fetchAll_with_initial)
  moreover have "[0 ..< length rs] \<noteq> []" using False by simp
  ultimately show ?thesis by (rule pending_loop)
qed

lemma fetchTelemetryForMultipleVehicles_simulated:
  assumes "heap w ref = Some ids"
  shows "fetchTelemetryForMultipleVehicles ref w = fetchAll_with simulated (map (Succeed 1000) ids) w"
  using assms
  by (simp add: fetchTelemetryForMultipleVehicles_def fetchAll_with_def map_fetch_fetchTelemetryData)

lemma fulfilled_post_all_succeed:
  "fulfilled_post rnd rs w0 w \<Longrightarrow> i < length rs \<Longrightarrow> \<exists>ms v. rs ! i = Succeed ms v"
  unfolding fulfilled_post_def by blast

lemma fetchAll_success:
  assumes idle: "timers w0 = []" and ok: "\<forall>i<length rs. \<exists>ms v. rs ! i = Succeed ms v"
  shows "fulfilled_post rnd rs w0 (event_loop rnd (fetchAll_with simulated rs w0))"
proof -
  have "\<not> first_failure rs j d e" for j d e
    using ok unfolding first_failure_def by auto
  with fetchAll_outcome [OF idle, of rnd rs] show ?thesis by blast
qed

lemma fetchAll_failure:
  assumes idle: "timers w0 = []" and j: "j < length rs" and f: "rs ! j = Fail d e"
  shows "\<exists>j' d' e'. first_failure rs j' d' e' \<and>
    rejected_inv rs w0 e' (event_loop rnd (fetchAll_with simulated rs w0))"
proof -
  have "\<not> fulfilled_post rnd rs w0 (event_loop rnd (fetchAll_with simulated rs w0))"
    using fulfilled_post_all_succeed [of rnd rs w0 _ j] j f by auto
  with fetchAll_outcome [OF idle, of rnd rs] show ?thesis by blast
qed

lemma fetchAll_returned:
  assumes idle: "timers w0 = []"
  shows "returned (event_loop rnd (fetchAll_with simulated rs w0)) = Some (Fulfilled Undefined)"
  using fetchAll_outcome [OF idle, of rnd rs]
  unfolding fulfilled_post_def rejected_inv_def by blast

lemma fulfilled_post_report:
  assumes post: "fulfilled_post rnd rs w0 w" and len: "length rs = length ids"
    and ids: "\<forall>i<length ids. \<exists>ms. rs ! i = Succeed ms (ids ! i)"
  obtains data where "telemetryData w = Some data" and "length data = length ids"
    and "map vehicleId data = ids"
    and "\<forall>i<length ids. \<exists>s. speed (data ! i) = js_times (rnd s) hundred"
    and "console w = console w0 @ Log ''Telemetry Data:'' #
          map (\<lambda>data. Log_vehicle (vehicleId data) (speed data)) data"
proof -
  from post obtain data where td: "telemetryData w = Some data"
    and ld: "length data = length rs"
    and entries: "\<forall>i<length rs. \<exists>ms v s. rs ! i = Succeed ms v \<and>
           data ! i = \<lparr>vehicleId = v, speed = js_times (rnd s) hundred\<rparr>"
    and con: "console w = console w0 @ Log ''Telemetry Data:'' #
          map (\<lambda>data. Log_vehicle (vehicleId data) (speed data)) data"
    unfolding fulfilled_post_def by blast
  have each: "vehicleId (data ! i) = ids ! i \<and> (\<exists>s. speed (data ! i) = js_times (rnd s) hundred)"
    if i: "i < length ids" for i
  proof -
    from entries i len obtain ms v s where r: "rs ! i = Succeed ms v"
      and d: "data ! i = \<lparr>vehicleId = v, speed = js_times (rnd s) hundred\<rparr>" by auto
    from ids i obtain ms' where "rs ! i = Succeed ms' (ids ! i)" by blast
    with r have "v = ids ! i" by simp
    with d show ?thesis by auto
  qed
  have "map vehicleId data = ids"
    by (rule nth_equalityI) (simp_all add: ld len each)
  moreover have "\<forall>i<length ids. \<exists>s. speed (data ! i) = js_times (rnd s) hundred" using each by blast
  ultimately show thesis using td ld len con by (intro that [of data]) simp_all
qed

lemma fetchAll_actual:
  assumes idle: "timers w = []" and arr: "heap w ref = Some ids"
  shows "fulfilled_post rnd (map (Succeed 1000) ids) w
    (event_loop rnd (fetchTelemetryForMultipleVehicles ref w))"
  unfolding fetchTelemetryForMultipleVehicles_simulated [OF arr]
  by (rule fetchAll_success [OF idle]) simp

section \<open>The report of a successful call\<close>

text \<open>
  C1. For every list of N identifiers the call aggregates a report of exactly N entries
  whose identifiers are the input list, in input order, and prints the header line
  followed by one line per entry in that order. Every retrieval of
  \<open>fetchTelemetryData\<close> succeeds, so this is the only path of the call on an array.
\<close>

theorem fetchAll_report_length_and_order:
  assumes "timers w = []" and "heap w ref = Some ids"
  shows "\<exists>data.
    telemetryData (event_loop rnd (fetchTelemetryForMultipleVehicles ref w)) = Some data \<and>
    length data = length ids \<and> map vehicleId data = ids \<and>
    console (event_loop rnd (fetchTelemetryForMultipleVehicles ref w)) =
      console w @ Log ''Telemetry Data:'' #
        map (\<lambda>data. Log_vehicle (vehicleId data) (speed data)) data"
proof -
  have "fulfilled_post rnd (map (Succeed 1000) ids) w
      (event_loop rnd (fetchTelemetryForMultipleVehicles ref w))"
    using assms by (rule fetchAll_actual)
  then obtain data where
    "telemetryData (event_loop rnd (fetchTelemetryForMultipleVehicles ref w)) = Some data"
    "length data = length ids" "map vehicleId data = ids"
    "console (event_loop rnd (fetchTelemetryForMultipleVehicles ref w)) =
      console w @ Log ''Telemetry Data:'' #
        map (\<lambda>data. Log_vehicle (vehicleId data) (speed data)) data"
    by (rule fulfilled_post_report [where ids = ids]) simp_all
  then show ?thesis by blast
qed

theorem fetchAll_report_length_and_order_witness:
  "timers script_world = [] \<and> heap script_world 0 = Some [1, 2, 3, 4, 5] \<and>
   (\<exists>data.
      telemetryData (event_loop steady (fetchTelemetryForMultipleVehicles 0 script_world)) = Some data \<and>
      length data = 5 \<and> map vehicleId data = [1, 2, 3, 4, 5] \<and>
      console (event_loop steady (fetchTelemetryForMultipleVehicles 0 script_world)) =
        Log ''working'' # Log ''Telemetry Data:'' #
          map (\<lambda>data. Log_vehicle (vehicleId data) (speed data)) data)"
proof -
  have idle: "timers script_world = []" by (simp add: script_world_def)
  have arr: "heap script_world 0 = Some [1, 2, 3, 4, 5]" by (simp add: script_world_def)
  have "console script_world = [Log ''working'']" by (simp add: script_world_def)
  with fetchAll_report_length_and_order [OF idle arr, of steady] idle arr
  show ?thesis by (simp add: eval_nat_numeral)
qed

text \<open>
  C2. On the success path the i-th entry of the report carries the i-th input
  identifier, and the i-th line printed after the header is the line of that entry; for
  the script's input [1, 2, 3, 4, 5] the report has five entries with the identifiers
  1, 2, 3, 4, 5 at the positions 0 to 4.
\<close>

theorem fetchAll_entry_identifier:
  assumes "timers w = []" and "heap w ref = Some ids"
  shows "\<exists>data.
    telemetryData (event_loop rnd (fetchTelemetryForMultipleVehicles ref w)) = Some data \<and>
    length data = length ids \<and>
    (\<forall>i<length ids.
       vehicleId (data ! i) = ids ! i \<and>
       console (event_loop rnd (fetchTelemetryForMultipleVehicles ref w)) !
         (length (console w) + Suc i) = Log_vehicle (ids ! i) (speed (data ! i)))"
proof -
  let ?W = "event_loop rnd (fetchTelemetryForMultipleVehicles ref w)"
  have "fulfilled_post rnd (map (Succeed 1000) ids) w ?W"
    using assms by (rule fetchAll_actual)
  then obtain data where td: "telemetryData ?W = Some data"
    and ld: "length data = length ids" and order: "map vehicleId data = ids"
    and con: "console ?W = console w @ Log ''Telemetry Data:'' #
        map (\<lambda>data. Log_vehicle (vehicleId data) (speed data)) data"
    by (rule fulfilled_post_report [where ids = ids]) simp_all
  have "vehicleId (data ! i) = ids ! i \<and>
      console ?W ! (length (console w) + Suc i) = Log_vehicle (ids ! i) (speed (data ! i))"
    if i: "i < length ids" for i
  proof -
    have "vehicleId (data ! i) = map vehicleId data ! i" using i ld by simp
    then have v: "vehicleId (data ! i) = ids ! i" using order by simp
    have "console ?W ! (length (console w) + Suc i) =
        map (\<lambda>data. Log_vehicle (vehicleId data) (speed data)) data ! i"
      unfolding con by (simp add: nth_append)
    also have "\<dots> = Log_vehicle (vehicleId (data ! i)) (speed (data ! i))"
      using i ld by simp
    finally show ?thesis using v by simp
  qed
  with td ld show ?thesis by blast
qed

theorem fetchAll_entry_identifier_witness:
  "timers script_world = [] \<and> heap script_world 0 = Some [1, 2, 3, 4, 5] \<and>
   (\<exists>data.
      telemetryData (event_loop steady (fetchTelemetryForMultipleVehicles 0 script_world)) = Some data \<and>
      length data = 5 \<and>
      vehicleId (data ! 0) = 1 \<and> vehicleId (data ! 1) = 2 \<and> vehicleId (data ! 2) = 3 \<and>
      vehicleId (data ! 3) = 4 \<and> vehicleId (data ! 4) = 5)"
proof -
  let ?W = "event_loop steady (fetchTelemetryForMultipleVehicles 0 script_world)"
  have idle: "timers script_world = []" by (simp add: script_world_def)
  have arr: "heap script_world 0 = Some [1, 2, 3, 4, 5]" by (simp add: script_world_def)
  from fetchAll_entry_identifier [OF idle arr, of steady]
  obtain data where td: "telemetryData ?W = Some data"
    and ld: "length data = length [1, 2, 3, 4, 5 :: int]"
    and each: "\<forall>i<length [1, 2, 3, 4, 5 :: int].
       vehicleId (data ! i) = [1, 2, 3, 4, 5] ! i \<and>
       console ?W ! (length (console script_world) + Suc i) =
         Log_vehicle ([1, 2, 3, 4, 5] ! i) (speed (data ! i))"
    by blast
  have "vehicleId (data ! 0) = 1" using each [rule_format, of 0] by simp
  moreover have "vehicleId (data ! 1) = 2" using each [rule_format, of 1] by simp
  moreover have "vehicleId (data ! 2) = 3" using each [rule_format, of 2] by simp
  moreover have "vehicleId (data ! 3) = 4" using each [rule_format, of 3] by simp
  moreover have "vehicleId (data ! 4) = 5" using each [rule_format, of 4] by simp
  moreover have "length data = 5" using ld by simp
  ultimately show ?thesis using idle arr td by blast
qed

section \<open>The empty input\<close>

text \<open>
  C5, as stated: for the empty input list the call returns an empty report. The
  function has no \<^verbatim>\<open>return\<close> statement: its promise is fulfilled with
  \<open>undefined\<close>, not with the (empty) report.
\<close>

theorem fetchAll_empty_returns_report_counterexample:
  "returned (event_loop steady
      (fetchTelemetryForMultipleVehicles 0 (script_world\<lparr>heap := Map.empty(0 \<mapsto> [])\<rparr>))) =
     Some (Fulfilled Undefined) \<and>
   returned (event_loop steady
      (fetchTelemetryForMultipleVehicles 0 (script_world\<lparr>heap := Map.empty(0 \<mapsto> [])\<rparr>))) \<noteq>
     Some (Fulfilled (Report []))"
  by (simp add: script_world_def fetchTelemetryForMultipleVehicles_def fetchAll_with_def
        Promise_all_def resume_def try_rest_def event_loop.simps)

text \<open>
  C5, amended: for the empty input list the call awaits an empty report, prints the
  header line and no entry, and does not fail; the call itself resolves with no value.
\<close>

theorem fetchAll_empty:
  assumes "timers w = []" and "heap w ref = Some []"
  shows "telemetryData (event_loop rnd (fetchTelemetryForMultipleVehicles ref w)) = Some [] \<and>
    console (event_loop rnd (fetchTelemetryForMultipleVehicles ref w)) =
      console w @ [Log ''Telemetry Data:''] \<and>
    returned (event_loop rnd (fetchTelemetryForMultipleVehicles ref w)) =
      Some (Fulfilled Undefined)"
proof -
  let ?W = "event_loop rnd (fetchTelemetryForMultipleVehicles ref w)"
  have "fulfilled_post rnd (map (Succeed 1000) []) w ?W"
    using assms by (rule fetchAll_actual)
  then show ?thesis unfolding fulfilled_post_def by auto
qed

theorem fetchAll_empty_witness:
  "timers (script_world\<lparr>heap := Map.empty(0 \<mapsto> [])\<rparr>) = [] \<and>
   heap (script_world\<lparr>heap := Map.empty(0 \<mapsto> [])\<rparr>) 0 = Some [] \<and>
   telemetryData (event_loop steady
     (fetchTelemetryForMultipleVehicles 0 (script_world\<lparr>heap := Map.empty(0 \<mapsto> [])\<rparr>))) = Some [] \<and>
   console (event_loop steady
     (fetchTelemetryForMultipleVehicles 0 (script_world\<lparr>heap := Map.empty(0 \<mapsto> [])\<rparr>))) =
     [Log ''working'', Log ''Telemetry Data:''] \<and>
   returned (event_loop steady
     (fetchTelemetryForMultipleVehicles 0 (script_world\<lparr>heap := Map.empty(0 \<mapsto> [])\<rparr>))) =
     Some (Fulfilled Undefined)"
proof -
  let ?w = "script_world\<lparr>heap := Map.empty(0 \<mapsto> [])\<rparr>"
  have idle: "timers ?w = []" by (simp add: script_world_def)
  have arr: "heap ?w 0 = Some []" by simp
  have "console ?w = [Log ''working'']" by (simp add: script_world_def)
  with fetchAll_empty [OF idle arr, of steady] idle arr show ?thesis by simp
qed

section \<open>The failure path\<close>

text \<open>
  C3, as stated: if a child retrieval fails, the aggregate call surfaces the first error
  as its own outcome. In the batch below the second retrieval is rejected, and the
  promise of the call is fulfilled with \<open>undefined\<close>, not rejected with that error: the
  \<^verbatim>\<open>catch\<close> block consumes it.
\<close>

theorem fetchAll_failure_surfaced_counterexample:
  "returned (event_loop steady (fetchAll_with simulated flaky_batch script_world)) =
     Some (Fulfilled Undefined) \<and>
   returned (event_loop steady (fetchAll_with simulated flaky_batch script_world)) \<noteq>
     Some (Rejected (Reason ''timeout''))"
  by (simp add: flaky_batch_def script_world_def steady_def fetchAll_with_def new_Promise_def
        setTimeout_def Promise_all_def resume_def event_loop.simps fire_def Math_random_def
        settle_def react_def resolve_element_def settle_all_def catch_block_def try_rest_def)

lemma rejected_inv_no_report: "rejected_inv rs w0 e w \<Longrightarrow> telemetryData w = None"
  unfolding rejected_inv_def telemetryData_def by auto

text \<open>
  C3, amended: if any child retrieval fails, the call abandons the other results,
  writes one diagnostic error line carrying the first error encountered (the failing
  retrieval with the shortest delay, the earliest started among equals), prints and
  aggregates no report, and itself resolves normally with no value.
\<close>

theorem fetchAll_failure_logged:
  assumes "timers w = []" and "j < length rs" and "rs ! j = Fail d e"
  shows "\<exists>j' d' e'. first_failure rs j' d' e' \<and>
    console (event_loop rnd (fetchAll_with simulated rs w)) =
      console w @ [Log_error ''Error fetching telemetry data:'' e'] \<and>
    telemetryData (event_loop rnd (fetchAll_with simulated rs w)) = None \<and>
    returned (event_loop rnd (fetchAll_with simulated rs w)) = Some (Fulfilled Undefined)"
proof -
  let ?W = "event_loop rnd (fetchAll_with simulated rs w)"
  from assms obtain j' d' e' where first: "first_failure rs j' d' e'"
    and inv: "rejected_inv rs w e' ?W"
    using fetchAll_failure [of w j rs d e rnd] by blast
  from inv have "console ?W = console w @ [Log_error ''Error fetching telemetry data:'' e']"
    and "returned ?W = Some (Fulfilled Undefined)"
    unfolding rejected_inv_def by blast+
  moreover from inv have "telemetryData ?W = None" by (rule rejected_inv_no_report)
  ultimately show ?thesis using first by blast
qed

theorem fetchAll_failure_logged_witness:
  "timers script_world = [] \<and> 1 < length flaky_batch \<and>
   flaky_batch ! 1 = Fail 500 (Reason ''timeout'') \<and>
   (\<exists>j' d' e'.
      first_failure flaky_batch j' d' e' \<and>
      console (event_loop steady (fetchAll_with simulated flaky_batch script_world)) =
        console script_world @ [Log_error ''Error fetching telemetry data:'' e'] \<and>
      telemetryData (event_loop steady (fetchAll_with simulated flaky_batch script_world)) = None \<and>
      returned (event_loop steady (fetchAll_with simulated flaky_batch script_world)) =
        Some (Fulfilled Undefined))"
proof -
  have idle: "timers script_world = []" by (simp add: script_world_def)
  have j: "1 < length flaky_batch" by (simp add: flaky_batch_def)
  have f: "flaky_batch ! 1 = Fail 500 (Reason ''timeout'')" by (simp add: flaky_batch_def)
  from fetchAll_failure_logged [OF idle j f, of steady] idle j f show ?thesis by blast
qed

lemma fetchTelemetryForMultipleVehicles_not_array:
  assumes "heap w ref = None"
  shows "fetchTelemetryForMultipleVehicles ref w = catch_block TypeError (w\<lparr>returned := Some Pending\<rparr>)"
  using assms by (simp add: fetchTelemetryForMultipleVehicles_def)

lemma fetchTelemetryForMultipleVehicles_returned:
  assumes idle: "timers w = []"
  shows "returned (event_loop rnd (fetchTelemetryForMultipleVehicles ref w)) = Some (Fulfilled Undefined)"
proof (cases "heap w ref")
  case None
  let ?w1 = "catch_block TypeError (w\<lparr>returned := Some Pending\<rparr>)"
  have "timers ?w1 = []" using idle by (simp add: catch_block_def)
  then have "event_loop rnd ?w1 = ?w1" by (simp add: event_loop.simps [of rnd ?w1])
  then show ?thesis
    unfolding fetchTelemetryForMultipleVehicles_not_array [OF None]
    by (simp add: catch_block_def)
next
  case (Some ids)
  show ?thesis
    unfolding fetchTelemetryForMultipleVehicles_simulated [OF Some]
    using idle by (rule fetchAll_returned)
qed

text \<open>
  C10. The call never rejects and never throws: its promise is fulfilled with
  \<open>undefined\<close> for every argument (an array or not) and for every batch of simulated
  retrievals; and when a child is rejected, the awaited promise is rejected with an error
  that the \<^verbatim>\<open>catch\<close> block writes to the diagnostic channel, so the caller cannot
  observe the failure from the promise it holds.
\<close>

theorem fetchAll_never_rejects:
  assumes "timers w = []"
  shows "returned (event_loop rnd (fetchTelemetryForMultipleVehicles ref w)) =
      Some (Fulfilled Undefined) \<and>
    returned (event_loop rnd (fetchAll_with simulated rs w)) = Some (Fulfilled Undefined) \<and>
    ((\<exists>j d e. j < length rs \<and> rs ! j = Fail d e) \<longrightarrow>
       (\<exists>a e. aggregate (event_loop rnd (fetchAll_with simulated rs w)) = Some a \<and>
          all_promise a = Rejected e \<and>
          console (event_loop rnd (fetchAll_with simulated rs w)) =
            console w @ [Log_error ''Error fetching telemetry data:'' e]))"
proof (intro conjI impI)
  show "returned (event_loop rnd (fetchTelemetryForMultipleVehicles ref w)) = Some (Fulfilled Undefined)"
    using assms by (rule fetchTelemetryForMultipleVehicles_returned)
  show "returned (event_loop rnd (fetchAll_with simulated rs w)) = Some (Fulfilled Undefined)"
    using assms by (rule fetchAll_returned)
  assume "\<exists>j d e. j < length rs \<and> rs ! j = Fail d e"
  then obtain j d e where "j < length rs" "rs ! j = Fail d e" by blast
  with assms obtain e' where
    "rejected_inv rs w e' (event_loop rnd (fetchAll_with simulated rs w))"
    using fetchAll_failure [of w j rs d e rnd] by blast
  then show "\<exists>a e. aggregate (event_loop rnd (fetchAll_with simulated rs w)) = Some a \<and>
      all_promise a = Rejected e \<and>
      console (event_loop rnd (fetchAll_with simulated rs w)) =
        console w @ [Log_error ''Error fetching telemetry data:'' e]"
    unfolding rejected_inv_def by blast
qed

theorem fetchAll_never_rejects_witness:
  "timers script_world = [] \<and>
   returned (event_loop steady (fetchTelemetryForMultipleVehicles 7 script_world)) =
     Some (Fulfilled Undefined) \<and>
   returned (event_loop steady (fetchAll_with simulated flaky_batch script_world)) =
     Some (Fulfilled Undefined) \<and>
   (\<exists>a e. aggregate (event_loop steady (fetchAll_with simulated flaky_batch script_world)) = Some a \<and>
      all_promise a = Rejected e \<and>
      console (event_loop steady (fetchAll_with simulated flaky_batch script_world)) =
        console script_world @ [Log_error ''Error fetching telemetry data:'' e])"
proof -
  have idle: "timers script_world = []" by (simp add: script_world_def)
  have "\<exists>j d e. j < length flaky_batch \<and> flaky_batch ! j = Fail d e"
    by (intro exI [of _ 1] exI [of _ 500] exI [of _ "Reason ''timeout''"])
       (simp add: flaky_batch_def)
  with fetchAll_never_rejects [OF idle, of steady 7 flaky_batch] idle show ?thesis by blast
qed

section \<open>A single retrieval\<close>

lemma fetchTelemetryData_eq:
  "fetchTelemetryData v w =
     (length (promises w),
      w\<lparr>promises := promises w @ [Pending],
        timers := timers w @ [(clock w + 1000, Resolve_telemetry (length (promises w)) v)]\<rparr>)"
  by (simp add: fetchTelemetryData_def new_Promise_def setTimeout_def Let_def)

lemma take_next_single [simp]: "take_next [t] = Some (t, [])"
  by simp

lemma event_loop_idle: "timers w = [] \<Longrightarrow> event_loop rnd w = w"
  by (simp add: event_loop.simps [of rnd w])

lemma event_loop_single:
  "timers w = [t] \<Longrightarrow> event_loop rnd w = fire rnd t (w\<lparr>timers := []\<rparr>)"
  by (simp add: event_loop.simps [of rnd w] event_loop_idle)

lemma run_until_idle: "timers w = [] \<Longrightarrow> run_until rnd t w = w\<lparr>clock := max (clock w) t\<rparr>"
  by (simp add: run_until.simps [of rnd t w])

lemma run_until_single:
  "timers w = [u] \<Longrightarrow>
   run_until rnd t w =
     (if fst u \<le> t then (fire rnd u (w\<lparr>timers := []\<rparr>))\<lparr>clock := max (max (clock w) (fst u)) t\<rparr>
      else w\<lparr>clock := max (clock w) t\<rparr>)"
  by (simp add: run_until.simps [of rnd t w] run_until_idle)

lemma fetchTelemetryData_fired:
  assumes idle: "timers w = []"
  shows "promises (fire rnd (clock w + 1000, Resolve_telemetry (length (promises w)) v)
      (snd (fetchTelemetryData v w)\<lparr>timers := []\<rparr>)) ! length (promises w) =
    Fulfilled \<lparr>vehicleId = v, speed = js_times (rnd (draws w)) hundred\<rparr>"
  by (simp add: fetchTelemetryData_eq promises_fire)

lemma fetchTelemetryData_resolves:
  assumes idle: "timers w = []"
  shows "promises (event_loop rnd (snd (fetchTelemetryData v w))) ! fst (fetchTelemetryData v w) =
    Fulfilled \<lparr>vehicleId = v, speed = js_times (rnd (draws w)) hundred\<rparr>"
proof -
  let ?t = "(clock w + 1000, Resolve_telemetry (length (promises w)) v)"
  have "timers (snd (fetchTelemetryData v w)) = [?t]"
    using idle by (simp add: fetchTelemetryData_eq)
  then have "event_loop rnd (snd (fetchTelemetryData v w)) =
      fire rnd ?t (snd (fetchTelemetryData v w)\<lparr>timers := []\<rparr>)"
    by (rule event_loop_single)
  moreover have "fst (fetchTelemetryData v w) = length (promises w)"
    by (simp add: fetchTelemetryData_eq)
  ultimately show ?thesis using fetchTelemetryData_fired [OF idle] by simp
qed

text \<open>
  C6. A retrieval never fails: for every identifier, once the event loop has run, the
  promise that \<open>fetchTelemetryData\<close> returned is fulfilled with a sample for that
  identifier, and it is rejected with no error.
\<close>

theorem fetchTelemetryData_never_fails:
  assumes "timers w = []"
  shows "promises (event_loop rnd (snd (fetchTelemetryData v w))) ! fst (fetchTelemetryData v w) =
      Fulfilled \<lparr>vehicleId = v, speed = js_times (rnd (draws w)) hundred\<rparr> \<and>
    (\<forall>e. promises (event_loop rnd (snd (fetchTelemetryData v w))) ! fst (fetchTelemetryData v w) \<noteq>
      Rejected e)"
  using fetchTelemetryData_resolves [OF assms, of rnd v] by simp

theorem fetchTelemetryData_never_fails_witness:
  "timers script_world = [] \<and>
   promises (event_loop steady (snd (fetchTelemetryData 7 script_world))) !
       fst (fetchTelemetryData 7 script_world) =
       Fulfilled \<lparr>vehicleId = 7, speed = Finite 100 (- 1)\<rparr> \<and>
   (\<forall>e. promises (event_loop steady (snd (fetchTelemetryData 7 script_world))) !
       fst (fetchTelemetryData 7 script_world) \<noteq> Rejected e)"
proof -
  have idle: "timers script_world = []" by (simp add: script_world_def)
  have d: "js_times (steady (draws script_world)) hundred = Finite 100 (- 1)"
    by (rule steady_speed)
  from fetchTelemetryData_never_fails [OF idle, of steady 7] idle show ?thesis
    unfolding d by blast
qed

lemma timers_fetchTelemetryForMultipleVehicles:
  assumes idle: "timers w = []" and arr: "heap w ref = Some ids"
  shows "timers (fetchTelemetryForMultipleVehicles ref w) =
    map (\<lambda>i. (clock w + 1000, Resolve_telemetry (length (promises w) + i) (ids ! i)))
      [0 ..< length ids]"
  unfolding fetchTelemetryForMultipleVehicles_simulated [OF arr] fetchAll_with_simulated
  using idle by (simp add: timer_of_def)

text \<open>
  C8. A retrieval is delayed by exactly 1000 time units: the call registers one timer,
  due 1000 after the time of the call; its promise is pending at every time before
  that and fulfilled with the sample from then on. No other timeout exists: the
  aggregate call registers the timers of its retrievals, each due 1000 after the call,
  and nothing else.
\<close>

theorem fetchTelemetryData_delay:
  assumes "timers w = []" and "heap w ref = Some ids"
  shows "timers (snd (fetchTelemetryData v w)) =
      [(clock w + 1000, Resolve_telemetry (fst (fetchTelemetryData v w)) v)] \<and>
    (\<forall>t. promises (run_until rnd t (snd (fetchTelemetryData v w))) ! fst (fetchTelemetryData v w) =
       (if t < clock w + 1000 then Pending
        else Fulfilled \<lparr>vehicleId = v, speed = js_times (rnd (draws w)) hundred\<rparr>)) \<and>
    timers (fetchTelemetryForMultipleVehicles ref w) =
      map (\<lambda>i. (clock w + 1000, Resolve_telemetry (length (promises w) + i) (ids ! i)))
        [0 ..< length ids]"
proof (intro conjI allI)
  let ?k = "length (promises w)"
  let ?u = "(clock w + 1000, Resolve_telemetry ?k v)"
  let ?w1 = "snd (fetchTelemetryData v w)"
  have k: "fst (fetchTelemetryData v w) = ?k" by (simp add: fetchTelemetryData_eq)
  show tm: "timers ?w1 = [(clock w + 1000, Resolve_telemetry (fst (fetchTelemetryData v w)) v)]"
    using assms(1) by (simp add: fetchTelemetryData_eq)
  show "timers (fetchTelemetryForMultipleVehicles ref w) =
      map (\<lambda>i. (clock w + 1000, Resolve_telemetry (length (promises w) + i) (ids ! i)))
        [0 ..< length ids]"
    using assms by (rule timers_fetchTelemetryForMultipleVehicles)
  fix t
  have run: "run_until rnd t ?w1 =
     (if fst ?u \<le> t then (fire rnd ?u (?w1\<lparr>timers := []\<rparr>))\<lparr>clock := max (max (clock ?w1) (fst ?u)) t\<rparr>
      else ?w1\<lparr>clock := max (clock ?w1) t\<rparr>)"
    using tm unfolding k by (rule run_until_single)
  show "promises (run_until rnd t ?w1) ! fst (fetchTelemetryData v w) =
       (if t < clock w + 1000 then Pending
        else Fulfilled \<lparr>vehicleId = v, speed = js_times (rnd (draws w)) hundred\<rparr>)"
  proof (cases "t < clock w + 1000")
    case True
    then have "run_until rnd t ?w1 = ?w1\<lparr>clock := max (clock ?w1) t\<rparr>"
      unfolding run by simp
    then show ?thesis using True by (simp add: fetchTelemetryData_eq)
  next
    case False
    then have "run_until rnd t ?w1 =
        (fire rnd ?u (?w1\<lparr>timers := []\<rparr>))\<lparr>clock := max (max (clock ?w1) (fst ?u)) t\<rparr>"
      unfolding run by simp
    then show ?thesis
      using False fetchTelemetryData_fired [OF assms(1), of rnd v] unfolding k by simp
  qed
qed

theorem fetchTelemetryData_delay_witness:
  "timers script_world = [] \<and> heap script_world 0 = Some [1, 2, 3, 4, 5] \<and>
   timers (snd (fetchTelemetryData 7 script_world)) = [(1000, Resolve_telemetry 0 7)] \<and>
   promises (run_until steady 999 (snd (fetchTelemetryData 7 script_world))) ! 0 = Pending \<and>
   promises (run_until steady 1000 (snd (fetchTelemetryData 7 script_world))) ! 0 =
     Fulfilled \<lparr>vehicleId = 7, speed = Finite 100 (- 1)\<rparr> \<and>
   timers (fetchTelemetryForMultipleVehicles 0 script_world) =
     [(1000, Resolve_telemetry 0 1), (1000, Resolve_telemetry 1 2), (1000, Resolve_telemetry 2 3),
      (1000, Resolve_telemetry 3 4), (1000, Resolve_telemetry 4 5)]"
proof -
  have idle: "timers script_world = []" by (simp add: script_world_def)
  have arr: "heap script_world 0 = Some [1, 2, 3, 4, 5]" by (simp add: script_world_def)
  have k: "fst (fetchTelemetryData 7 script_world) = 0"
    by (simp add: fetchTelemetryData_eq script_world_def)
  have c: "clock script_world = 0" "draws script_world = 0" "promises script_world = []"
    by (simp_all add: script_world_def)
  have five: "[0 ..< length [1, 2, 3, 4, 5 :: int]] = [0, 1, 2, 3, 4]"
    by (simp add: upt_rec)
  from fetchTelemetryData_delay [OF idle arr, of 7 steady]
  have tm: "timers (snd (fetchTelemetryData 7 script_world)) = [(1000, Resolve_telemetry 0 7)]"
    and at: "\<And>t. promises (run_until steady t (snd (fetchTelemetryData 7 script_world))) ! 0 =
       (if t < 1000 then Pending
        else Fulfilled \<lparr>vehicleId = 7, speed = js_times (steady 0) hundred\<rparr>)"
    and all: "timers (fetchTelemetryForMultipleVehicles 0 script_world) =
     [(1000, Resolve_telemetry 0 1), (1000, Resolve_telemetry 1 2), (1000, Resolve_telemetry 2 3),
      (1000, Resolve_telemetry 3 4), (1000, Resolve_telemetry 4 5)]"
    unfolding k c five by simp_all
  from at [of 999] at [of 1000] tm all idle arr show ?thesis by (simp add: steady_speed)
qed

section \<open>Completion order\<close>

lemma map2_Succeed_nth:
  "length delays = length ids \<Longrightarrow> i < length ids \<Longrightarrow>
   map2 Succeed delays ids ! i = Succeed (delays ! i) (ids ! i)"
  by simp

lemma map2_Succeed_replicate:
  "map2 Succeed (replicate (length ids) ms) ids = map (Succeed ms) ids"
  by (rule nth_equalityI) simp_all

text \<open>
  C7. The report is in input order whatever the order in which the retrievals
  complete. The schedule is given by the delays: retrieval \<open>i\<close> completes after
  \<open>delays ! i\<close>, so every completion order of the children is the firing order of some
  list of delays, and for every such list the awaited array and the printed lines
  carry the identifiers in input order. The call of the source is the case in which
  every delay is 1000 (\<open>fetchTelemetryForMultipleVehicles_simulated\<close>,
  \<open>map2_Succeed_replicate\<close>).
\<close>

theorem fetchAll_order_independent_of_completion:
  assumes "timers w = []" and "length delays = length ids"
  shows "\<exists>data.
    telemetryData (event_loop rnd (fetchAll_with simulated (map2 Succeed delays ids) w)) = Some data \<and>
    map vehicleId data = ids \<and>
    console (event_loop rnd (fetchAll_with simulated (map2 Succeed delays ids) w)) =
      console w @ Log ''Telemetry Data:'' #
        map (\<lambda>data. Log_vehicle (vehicleId data) (speed data)) data"
proof -
  let ?rs = "map2 Succeed delays ids"
  let ?W = "event_loop rnd (fetchAll_with simulated ?rs w)"
  have len: "length ?rs = length ids" using assms(2) by simp
  have each: "\<forall>i<length ids. \<exists>ms. ?rs ! i = Succeed ms (ids ! i)"
    using assms(2) by simp
  have "\<forall>i<length ?rs. \<exists>ms v. ?rs ! i = Succeed ms v"
    using assms(2) by simp
  with assms(1) have "fulfilled_post rnd ?rs w ?W" by (rule fetchAll_success)
  then obtain data where "telemetryData ?W = Some data" "map vehicleId data = ids"
    "console ?W = console w @ Log ''Telemetry Data:'' #
        map (\<lambda>data. Log_vehicle (vehicleId data) (speed data)) data"
    using len each by (rule fulfilled_post_report)
  then show ?thesis by blast
qed

theorem fetchAll_order_independent_of_completion_witness:
  "timers script_world = [] \<and> length [300, 200, 100 :: nat] = length [1, 2, 3 :: int] \<and>
   (\<exists>data.
      telemetryData (event_loop steady
        (fetchAll_with simulated (map2 Succeed [300, 200, 100] [1, 2, 3]) script_world)) = Some data \<and>
      map vehicleId data = [1, 2, 3] \<and>
      console (event_loop steady
        (fetchAll_with simulated (map2 Succeed [300, 200, 100] [1, 2, 3]) script_world)) =
        console script_world @ Log ''Telemetry Data:'' #
          map (\<lambda>data. Log_vehicle (vehicleId data) (speed data)) data)"
proof -
  have idle: "timers script_world = []" by (simp add: script_world_def)
  have len: "length [300, 200, 100 :: nat] = length [1, 2, 3 :: int]" by simp
  from fetchAll_order_independent_of_completion [OF idle len, of steady] idle len
  show ?thesis by blast
qed

section \<open>The range of the measurement\<close>

text \<open>
  How the draws of \<^verbatim>\<open>Math.random\<close> are distributed is the engine's; what the code
  adds is the factor 100. Each measurement is the double nearest to 100 times a draw, and
  for draws that keep the contract of \<^verbatim>\<open>Math.random\<close> it is a finite number that is
  at least 0 and less than 100: rounding the product never reaches 100.
\<close>

lemma js_times_hundred_value:
  assumes "unit_draw r"
  shows "\<exists>y. number_value (js_times r hundred) = Some y \<and> 0 \<le> y \<and> y < 100"
proof -
  from js_times_hundred_unit [OF assms] obtain q E
    where "js_times r hundred = Finite q E" and "real q * 2 powi E < 100" by blast
  moreover have "0 \<le> real q * 2 powi E" by simp
  ultimately show ?thesis by simp
qed

lemma sample_below_hundred:
  assumes "timers w = []" and "unit_draw (rnd (draws w))"
  shows "\<exists>s y.
    promises (event_loop rnd (snd (fetchTelemetryData v w))) ! fst (fetchTelemetryData v w) =
      Fulfilled \<lparr>vehicleId = v, speed = s\<rparr> \<and>
    number_value s = Some y \<and> 0 \<le> y \<and> y < 100"
  using js_times_hundred_value [OF assms(2)] fetchTelemetryData_resolves [OF assms(1), of rnd v]
  by blast

lemma speed_below_hundred:
  assumes "timers w = []" and "heap w ref = Some ids" and "\<forall>k. unit_draw (rnd k)"
  shows "\<exists>data.
    telemetryData (event_loop rnd (fetchTelemetryForMultipleVehicles ref w)) = Some data \<and>
    (\<forall>x\<in>set data. \<exists>y. number_value (speed x) = Some y \<and> 0 \<le> y \<and> y < 100)"
proof -
  let ?W = "event_loop rnd (fetchTelemetryForMultipleVehicles ref w)"
  have "fulfilled_post rnd (map (Succeed 1000) ids) w ?W"
    using assms(1,2) by (rule fetchAll_actual)
  then obtain data where td: "telemetryData ?W = Some data"
    and ld: "length data = length ids"
    and sp: "\<forall>i<length ids. \<exists>s. speed (data ! i) = js_times (rnd s) hundred"
    by (rule fulfilled_post_report [where ids = ids]) simp_all
  have "\<exists>y. number_value (speed x) = Some y \<and> 0 \<le> y \<and> y < 100"
    if "x \<in> set data" for x
  proof -
    from that obtain i where "i < length data" "x = data ! i" by (auto simp: in_set_conv_nth)
    with sp ld obtain k where k: "speed x = js_times (rnd k) hundred" by auto
    have "unit_draw (rnd k)" using assms(3) by simp
    then show ?thesis unfolding k by (rule js_times_hundred_value)
  qed
  with td show ?thesis by blast
qed

section \<open>Frame\<close>

lemma fetchTelemetryData_alone:
  assumes idle: "timers w = []" and alone: "aggregate w = None"
  shows "event_loop rnd (snd (fetchTelemetryData v w)) =
    w\<lparr>promises := promises w @ [Fulfilled \<lparr>vehicleId = v, speed = js_times (rnd (draws w)) hundred\<rparr>],
      timers := [], clock := clock w + 1000, draws := Suc (draws w)\<rparr>"
proof -
  let ?t = "(clock w + 1000, Resolve_telemetry (length (promises w)) v)"
  have "timers (snd (fetchTelemetryData v w)) = [?t]"
    using idle by (simp add: fetchTelemetryData_eq)
  then have "event_loop rnd (snd (fetchTelemetryData v w)) =
      fire rnd ?t (snd (fetchTelemetryData v w)\<lparr>timers := []\<rparr>)"
    by (rule event_loop_single)
  also have "\<dots> = w\<lparr>promises := promises w @ [Fulfilled \<lparr>vehicleId = v, speed = js_times (rnd (draws w)) hundred\<rparr>],
      timers := [], clock := clock w + 1000, draws := Suc (draws w)\<rparr>"
    using alone
    by (simp add: fetchTelemetryData_eq fire_def Math_random_def settle_def react_def)
  finally show ?thesis .
qed

text \<open>
  C9. Neither function has an effect beyond the diagnostic channel: after the aggregate
  call has run to its end the arrays of the caller are what they were (the input list
  among them), the promises that existed before are untouched, no timer is left, and the
  console has only been appended to; a single retrieval leaves the arrays, the earlier
  promises, the console, and the state of any aggregate call as they were and leaves no
  timer. What does change is the runtime's own: the clock, the position in the random
  sequence, and the promise objects the call itself created.
\<close>

theorem fetch_no_side_effects:
  assumes "timers w = []" and "heap w ref = Some ids" and "aggregate w = None"
  shows "heap (event_loop rnd (fetchTelemetryForMultipleVehicles ref w)) = heap w \<and>
    heap (event_loop rnd (fetchTelemetryForMultipleVehicles ref w)) ref = Some ids \<and>
    take (length (promises w)) (promises (event_loop rnd (fetchTelemetryForMultipleVehicles ref w))) =
      promises w \<and>
    timers (event_loop rnd (fetchTelemetryForMultipleVehicles ref w)) = [] \<and>
    (\<exists>lines. console (event_loop rnd (fetchTelemetryForMultipleVehicles ref w)) = console w @ lines) \<and>
    heap (event_loop rnd (snd (fetchTelemetryData v w))) = heap w \<and>
    take (length (promises w)) (promises (event_loop rnd (snd (fetchTelemetryData v w)))) =
      promises w \<and>
    timers (event_loop rnd (snd (fetchTelemetryData v w))) = [] \<and>
    console (event_loop rnd (snd (fetchTelemetryData v w))) = console w \<and>
    aggregate (event_loop rnd (snd (fetchTelemetryData v w))) = aggregate w \<and>
    returned (event_loop rnd (snd (fetchTelemetryData v w))) = returned w"
proof -
  let ?W = "event_loop rnd (fetchTelemetryForMultipleVehicles ref w)"
  have "fulfilled_post rnd (map (Succeed 1000) ids) w ?W"
    using assms(1,2) by (rule fetchAll_actual)
  then have hp: "heap ?W = heap w"
    and pre: "take (length (promises w)) (promises ?W) = promises w"
    and con: "\<exists>lines. console ?W = console w @ lines"
    unfolding fulfilled_post_def by blast+
  have alone: "event_loop rnd (snd (fetchTelemetryData v w)) =
    w\<lparr>promises := promises w @ [Fulfilled \<lparr>vehicleId = v, speed = js_times (rnd (draws w)) hundred\<rparr>],
      timers := [], clock := clock w + 1000, draws := Suc (draws w)\<rparr>"
    using assms(1,3) by (rule fetchTelemetryData_alone)
  show ?thesis
    unfolding alone using hp pre con assms(2) by simp
qed

theorem fetch_no_side_effects_witness:
  "timers script_world = [] \<and> heap script_world 0 = Some [1, 2, 3, 4, 5] \<and>
   aggregate script_world = None \<and>
   heap (event_loop steady (fetchTelemetryForMultipleVehicles 0 script_world)) = heap script_world \<and>
   heap (event_loop steady (fetchTelemetryForMultipleVehicles 0 script_world)) 0 = Some [1, 2, 3, 4, 5] \<and>
   take (length (promises script_world))
     (promises (event_loop steady (fetchTelemetryForMultipleVehicles 0 script_world))) =
     promises script_world \<and>
   timers (event_loop steady (fetchTelemetryForMultipleVehicles 0 script_world)) = [] \<and>
   (\<exists>lines. console (event_loop steady (fetchTelemetryForMultipleVehicles 0 script_world)) =
      console script_world @ lines) \<and>
   heap (event_loop steady (snd (fetchTelemetryData 7 script_world))) = heap script_world \<and>
   take (length (promises script_world))
     (promises (event_loop steady (snd (fetchTelemetryData 7 script_world)))) =
     promises script_world \<and>
   timers (event_loop steady (snd (fetchTelemetryData 7 script_world))) = [] \<and>
   console (event_loop steady (snd (fetchTelemetryData 7 script_world))) = console script_world \<and>
   aggregate (event_loop steady (snd (fetchTelemetryData 7 script_world))) = aggregate script_world \<and>
   returned (event_loop steady (snd (fetchTelemetryData 7 script_world))) = returned script_world"
proof -
  have idle: "timers script_world = []" by (simp add: script_world_def)
  have arr: "heap script_world 0 = Some [1, 2, 3, 4, 5]" by (simp add: script_world_def)
  have alone: "aggregate script_world = None" by (simp add: script_world_def)
  from fetch_no_side_effects [OF idle arr alone, of steady 7] idle arr alone
  show ?thesis by blast
qed

end
